theory Spec2Isabelle
  imports Complex_Main
begin

section \<open>The AI model router: data model\<close>

text \<open>
  A shallow embedding of \<^verbatim>\<open>src/model_router.py\<close>. The router object is a record
  that is passed through every operation and returned updated. Python floats (latencies,
  timestamps, the back-off factor) are read as real numbers; dictionaries are maps, and
  a lookup of a missing key is the error value \<open>KeyError\<close>. The two
  \<^verbatim>\<open>defaultdict\<close>s are total functions that start at the default value.
  The model is sequential: one operation runs to its end before the next one starts.
  Rounding of floats is outside the model, with one exception: the power in the back-off
  time, the one float operation of the router that can raise, raises \<open>OverflowError\<close> in
  the model when its value is too large for a float. The field \<^verbatim>\<open>type\<close> of an
  endpoint is called \<open>etype\<close>; the circuit states \<^verbatim>\<open>"closed"\<close>, \<^verbatim>\<open>"open"\<close> and
  \<^verbatim>\<open>"half-open"\<close> are the constructors of \<open>circuit\<close>; metadata and responses are
  dictionaries from strings to strings, written as association lists.
\<close>

datatype py_error = KeyError | IndexError | OverflowError

datatype circuit = Closed | Open | HalfOpen

type_synonym response = "(string \<times> string) list"
type_synonym metadata = "(string \<times> string) list"

record EndpointConfig =
  name :: string
  url :: string
  etype :: string
  weight :: int
  timeout :: real

record RetryConfig =
  max_attempts :: int
  backoff_factor :: real

record CircuitBreakerConfig =
  failure_threshold :: int
  recovery_timeout :: int

record AIModelRouterConfig =
  endpoints :: "EndpointConfig list"
  retry_config :: RetryConfig
  circuit_breaker :: CircuitBreakerConfig

record metrics_entry =
  request_count :: int
  success_count :: int
  error_count :: int
  total_latency :: real
  average_latency :: real

record cache_entry =
  timestamp :: real
  response :: response

text \<open>
  What the router does to the outside world is written to a trace, oldest event first:
  a transport request sent to an endpoint, the warning logged when an attempt failed,
  a back-off sleep, and a health probe.
\<close>

datatype event = Request string | Failed string | Sleep real | Probe string

text \<open>
  The mutable fields of \<^verbatim>\<open>AIModelRouter\<close>, followed by the bookkeeping of the
  environment: how often the clock and the random generator were read, how many transport
  requests and probes were made, and the trace.
\<close>

record router =
  circuit_states :: "string \<rightharpoonup> circuit"
  failure_counts :: "string \<Rightarrow> int"
  last_failure_time :: "string \<Rightarrow> real"
  cache :: "string \<rightharpoonup> cache_entry"
  metrics :: "string \<rightharpoonup> metrics_entry"
  clock_reads :: nat
  rng_draws :: nat
  requests :: nat
  probes :: nat
  trace :: "event list"

text \<open>
  The environment answers every call that leaves the router. Each answer may depend on
  how many calls of that kind were made before: \<open>time_at k\<close> is the value of the
  \<open>k\<close>-th \<^verbatim>\<open>time.time()\<close>, \<open>make_http_request k\<close> the outcome of the \<open>k\<close>-th transport
  request (\<open>None\<close> when it raises), and so on. \<open>sha256_hexdigest\<close> and
  \<open>str_sorted_items\<close> stand for \<^verbatim>\<open>hashlib.sha256(...).hexdigest()\<close> and
  \<^verbatim>\<open>str(sorted(metadata.items()))\<close>.
\<close>

record env =
  time_at :: "nat \<Rightarrow> real"
  make_http_request :: "nat \<Rightarrow> EndpointConfig \<Rightarrow> string \<Rightarrow> metadata option \<Rightarrow> response option"
  make_websocket_request :: "nat \<Rightarrow> EndpointConfig \<Rightarrow> string \<Rightarrow> metadata option \<Rightarrow> response option"
  random_uniform :: "nat \<Rightarrow> real \<Rightarrow> real \<Rightarrow> real"
  random_choice :: "nat \<Rightarrow> nat \<Rightarrow> nat"
  http_head_ok :: "nat \<Rightarrow> EndpointConfig \<Rightarrow> bool"
  ws_connect_ok :: "nat \<Rightarrow> EndpointConfig \<Rightarrow> bool"
  sha256_hexdigest :: "string \<Rightarrow> string"
  str_sorted_items :: "metadata \<Rightarrow> string"

text \<open>The four \<^verbatim>\<open>return\<close> statements of \<^verbatim>\<open>inference\<close>, and the dictionary each returns.\<close>

datatype outcome = CacheHit response | Success response | Unavailable | RetriesExhausted

fun result_dict :: "outcome \<Rightarrow> response" where
  "result_dict (CacheHit r) = r"
| "result_dict (Success r) = r"
| "result_dict Unavailable = [(''error'', ''All endpoints are unavailable.'')]"
| "result_dict RetriesExhausted = [(''error'', ''Request failed after multiple retries.'')]"

section \<open>Construction, clock, metrics\<close>

definition init :: "AIModelRouterConfig \<Rightarrow> router" where
  "init cfg =
     \<lparr> circuit_states = map_of (map (\<lambda>e. (name e, Closed)) (endpoints cfg)),
       failure_counts = (\<lambda>_. 0),
       last_failure_time = (\<lambda>_. 0),
       cache = Map.empty,
       metrics = map_of (map (\<lambda>e. (name e,
           \<lparr> request_count = 0, success_count = 0, error_count = 0,
             total_latency = 0, average_latency = 0 \<rparr>)) (endpoints cfg)),
       clock_reads = 0, rng_draws = 0, requests = 0, probes = 0, trace = [] \<rparr>"

definition time_time :: "env \<Rightarrow> router \<Rightarrow> real \<times> router" where
  "time_time ev st = (time_at ev (clock_reads st), st\<lparr>clock_reads := Suc (clock_reads st)\<rparr>)"

definition get_metrics :: "router \<Rightarrow> (string \<rightharpoonup> metrics_entry)" where
  "get_metrics st = metrics st"

definition bump_metrics :: "real \<Rightarrow> bool \<Rightarrow> metrics_entry \<Rightarrow> metrics_entry" where
  "bump_metrics latency success m =
     (let m1 = m\<lparr>request_count := request_count m + 1\<rparr>;
          m2 = m1\<lparr>total_latency := total_latency m1 + latency\<rparr>;
          m3 = (if success then m2\<lparr>success_count := success_count m2 + 1\<rparr>
                else m2\<lparr>error_count := error_count m2 + 1\<rparr>)
      in if request_count m3 > 0
         then m3\<lparr>average_latency := total_latency m3 / real_of_int (request_count m3)\<rparr>
         else m3)"

definition update_metrics :: "string \<Rightarrow> real \<Rightarrow> bool \<Rightarrow> router \<Rightarrow> py_error + router" where
  "update_metrics endpoint_name latency success st =
     (case metrics st endpoint_name of
        None \<Rightarrow> Inl KeyError
      | Some m \<Rightarrow> Inr (st\<lparr>metrics := (metrics st)(endpoint_name \<mapsto> bump_metrics latency success m)\<rparr>))"

definition get_cache_key :: "env \<Rightarrow> string \<Rightarrow> string \<Rightarrow> metadata option \<Rightarrow> string" where
  "get_cache_key ev model_type data md =
     sha256_hexdigest ev
       (model_type @ data @
        (case md of None \<Rightarrow> [] | Some m \<Rightarrow> if m \<noteq> [] then str_sorted_items ev m else []))"

section \<open>The Selector\<close>

text \<open>
  The list comprehension of \<^verbatim>\<open>_select_endpoint\<close>: the endpoints whose circuit is not
  open and whose name is not excluded, in configuration order.
\<close>

fun active_endpoints ::
  "(string \<rightharpoonup> circuit) \<Rightarrow> string list \<Rightarrow> EndpointConfig list \<Rightarrow> py_error + EndpointConfig list" where
  "active_endpoints cs exclude_names [] = Inr []"
| "active_endpoints cs exclude_names (e # es) =
     (case cs (name e) of
        None \<Rightarrow> Inl KeyError
      | Some s \<Rightarrow>
          (case active_endpoints cs exclude_names es of
             Inl err \<Rightarrow> Inl err
           | Inr r \<Rightarrow> Inr (if s \<noteq> Open \<and> name e \<notin> set exclude_names then e # r else r)))"

text \<open>The \<^verbatim>\<open>for\<close> loop that walks the candidates, accumulating weight.\<close>

fun walk :: "real \<Rightarrow> int \<Rightarrow> EndpointConfig list \<Rightarrow> EndpointConfig option" where
  "walk selection current_weight [] = None"
| "walk selection current_weight (e # es) =
     (let cw = current_weight + weight e
      in if real_of_int cw \<ge> selection then Some e else walk selection cw es)"

definition select_endpoint ::
  "AIModelRouterConfig \<Rightarrow> env \<Rightarrow> string list \<Rightarrow> router \<Rightarrow> py_error + (EndpointConfig option \<times> router)" where
  "select_endpoint cfg ev exclude_names st =
     (case active_endpoints (circuit_states st) exclude_names (endpoints cfg) of
        Inl err \<Rightarrow> Inl err
      | Inr act \<Rightarrow>
          if act = [] then Inr (None, st)
          else
            let total_weight = sum_list (map weight act);
                st1 = st\<lparr>rng_draws := Suc (rng_draws st)\<rparr>
            in if total_weight = 0
               then (let i = random_choice ev (rng_draws st) (length act)
                     in if i < length act then Inr (Some (act ! i), st1) else Inl IndexError)
               else Inr (walk (random_uniform ev (rng_draws st) 0 (real_of_int total_weight)) 0 act, st1))"

section \<open>The circuit breaker\<close>

definition trip_circuit :: "env \<Rightarrow> string \<Rightarrow> router \<Rightarrow> router" where
  "trip_circuit ev endpoint_name st =
     (let st1 = st\<lparr>circuit_states := (circuit_states st)(endpoint_name \<mapsto> Open)\<rparr>;
          (t, st2) = time_time ev st1
      in st2\<lparr>last_failure_time := (last_failure_time st2)(endpoint_name := t)\<rparr>)"

definition reset_circuit :: "string \<Rightarrow> router \<Rightarrow> py_error + router" where
  "reset_circuit endpoint_name st =
     (case circuit_states st endpoint_name of
        None \<Rightarrow> Inl KeyError
      | Some s \<Rightarrow>
          if s \<noteq> Closed
          then Inr (st\<lparr>circuit_states := (circuit_states st)(endpoint_name \<mapsto> Closed),
                       failure_counts := (failure_counts st)(endpoint_name := 0)\<rparr>)
          else Inr st)"

definition handle_failure :: "AIModelRouterConfig \<Rightarrow> env \<Rightarrow> string \<Rightarrow> router \<Rightarrow> py_error + router" where
  "handle_failure cfg ev endpoint_name st =
     (case circuit_states st endpoint_name of
        None \<Rightarrow> Inl KeyError
      | Some Closed \<Rightarrow>
          (let st1 = st\<lparr>failure_counts :=
                         (failure_counts st)(endpoint_name := failure_counts st endpoint_name + 1)\<rparr>
           in if failure_counts st1 endpoint_name \<ge> failure_threshold (circuit_breaker cfg)
              then Inr (trip_circuit ev endpoint_name st1)
              else Inr st1)
      | Some HalfOpen \<Rightarrow> Inr (trip_circuit ev endpoint_name st)
      | Some Open \<Rightarrow> Inr st)"

section \<open>The Dispatcher\<close>

text \<open>
  The endpoint named by \<^verbatim>\<open>metadata["endpoint_pref"]\<close>, when the metadata is a non-empty
  dictionary with that key and an endpoint of that name is configured.
\<close>

definition preferred_endpoint :: "metadata option \<Rightarrow> EndpointConfig list \<Rightarrow> EndpointConfig option" where
  "preferred_endpoint md eps =
     (case md of
        None \<Rightarrow> None
      | Some m \<Rightarrow>
          if m \<noteq> [] then
            (case map_of m ''endpoint_pref'' of
               None \<Rightarrow> None
             | Some p \<Rightarrow> find (\<lambda>ep. name ep = p) eps)
          else None)"

text \<open>The choice of the endpoint for one iteration of the loop.\<close>

definition choose_endpoint ::
  "AIModelRouterConfig \<Rightarrow> env \<Rightarrow> metadata option \<Rightarrow> nat \<Rightarrow> string list \<Rightarrow> router
     \<Rightarrow> py_error + (EndpointConfig option \<times> router)" where
  "choose_endpoint cfg ev md attempts tried_endpoints st =
     (case (if attempts = 0 then preferred_endpoint md (endpoints cfg) else None) of
        Some ep \<Rightarrow> Inr (Some ep, st)
      | None \<Rightarrow> select_endpoint cfg ev tried_endpoints st)"

text \<open>
  The transport call of one attempt. An endpoint of an unsupported type raises
  \<^verbatim>\<open>ValueError\<close> before any transport is contacted; like every exception of the
  transport it is the outcome \<open>None\<close>.
\<close>

definition make_request ::
  "env \<Rightarrow> EndpointConfig \<Rightarrow> string \<Rightarrow> metadata option \<Rightarrow> router \<Rightarrow> response option \<times> router" where
  "make_request ev endpoint data md st =
     (let st1 = st\<lparr>requests := Suc (requests st), trace := trace st @ [Request (name endpoint)]\<rparr>
      in if etype endpoint = ''http'' then (make_http_request ev (requests st) endpoint data md, st1)
         else if etype endpoint = ''websocket''
              then (make_websocket_request ev (requests st) endpoint data md, st1)
         else (None, st))"

text \<open>
  One attempt on a chosen endpoint: the \<^verbatim>\<open>try\<close> block and its handler. The result is
  the response of a successful attempt, or \<open>None\<close> after a failed one. A \<open>KeyError\<close> raised
  inside the \<^verbatim>\<open>try\<close> block is caught by the handler, which then raises it again from
  the same missing key, so it leaves \<^verbatim>\<open>inference\<close> in either case.
\<close>

definition attempt ::
  "AIModelRouterConfig \<Rightarrow> env \<Rightarrow> EndpointConfig \<Rightarrow> string \<Rightarrow> string \<Rightarrow> metadata option \<Rightarrow> router
     \<Rightarrow> py_error + (response option \<times> router)" where
  "attempt cfg ev endpoint cache_key data md st =
     (let (start_time, st1) = time_time ev st
      in case circuit_states st1 (name endpoint) of
           None \<Rightarrow> Inl KeyError
         | Some _ \<Rightarrow>
             (case make_request ev endpoint data md st1 of
                (Some resp, st2) \<Rightarrow>
                  (let (t, st3) = time_time ev st2
                   in case update_metrics (name endpoint) (t - start_time) True st3 of
                        Inl err \<Rightarrow> Inl err
                      | Inr st4 \<Rightarrow>
                          (case reset_circuit (name endpoint) st4 of
                             Inl err \<Rightarrow> Inl err
                           | Inr st5 \<Rightarrow>
                               (let (ts, st6) = time_time ev st5
                                in Inr (Some resp,
                                     st6\<lparr>cache := (cache st6)(cache_key \<mapsto>
                                            \<lparr>timestamp = ts, response = resp\<rparr>)\<rparr>))))
              | (None, st2) \<Rightarrow>
                  (let (t, st3) = time_time ev st2
                   in case update_metrics (name endpoint) (t - start_time) False st3 of
                        Inl err \<Rightarrow> Inl err
                      | Inr st4 \<Rightarrow>
                          (case handle_failure cfg ev (name endpoint)
                                  (st4\<lparr>trace := trace st4 @ [Failed (name endpoint)]\<rparr>) of
                             Inl err \<Rightarrow> Inl err
                           | Inr st5 \<Rightarrow> Inr (None, st5)))))"

text \<open>
  The back-off time \<^verbatim>\<open>backoff_factor**attempts\<close>, a float raised to a positive integer.
  Python raises \<^verbatim>\<open>OverflowError\<close> when the result of the C function \<^verbatim>\<open>pow\<close> is infinite,
  which for a power rounded to the nearest float is when its absolute value reaches
  \<open>float_overflow\<close>, half a unit in the last place above \<^verbatim>\<open>sys.float_info.max\<close>, the
  largest float, here \<open>float_max\<close>. A power that is too small for a float is rounded
  to zero and does not raise.
\<close>

definition float_max :: real where
  "float_max = 2 ^ 1024 - 2 ^ 971"

definition float_overflow :: real where
  "float_overflow = 2 ^ 1024 - 2 ^ 970"

definition float_pow :: "real \<Rightarrow> nat \<Rightarrow> py_error + real" where
  "float_pow x n = (if \<bar>x ^ n\<bar> \<ge> float_overflow then Inl OverflowError else Inr (x ^ n))"

text \<open>
  One iteration of the \<^verbatim>\<open>while\<close> loop. \<open>Some out\<close> is a \<^verbatim>\<open>return\<close>; \<open>None\<close> means
  that the attempt failed and the loop goes on with \<open>attempts + 1\<close>, after the back-off
  sleep when attempts remain. The back-off time is computed inside the exception handler,
  so when it overflows the \<^verbatim>\<open>OverflowError\<close> leaves \<^verbatim>\<open>inference\<close>.
\<close>

definition loop_body ::
  "AIModelRouterConfig \<Rightarrow> env \<Rightarrow> string \<Rightarrow> string \<Rightarrow> metadata option \<Rightarrow> nat \<Rightarrow> string list \<Rightarrow> router
     \<Rightarrow> py_error + (outcome option \<times> string list \<times> router)" where
  "loop_body cfg ev cache_key data md attempts tried_endpoints st =
     (case choose_endpoint cfg ev md attempts tried_endpoints st of
        Inl err \<Rightarrow> Inl err
      | Inr (None, st1) \<Rightarrow> Inr (Some Unavailable, tried_endpoints, st1)
      | Inr (Some endpoint, st1) \<Rightarrow>
          (case attempt cfg ev endpoint cache_key data md st1 of
             Inl err \<Rightarrow> Inl err
           | Inr (Some resp, st2) \<Rightarrow> Inr (Some (Success resp), tried_endpoints @ [name endpoint], st2)
           | Inr (None, st2) \<Rightarrow>
               if int (Suc attempts) < max_attempts (retry_config cfg)
               then (case float_pow (backoff_factor (retry_config cfg)) (Suc attempts) of
                       Inl err \<Rightarrow> Inl err
                     | Inr backoff_time \<Rightarrow>
                         Inr (None, tried_endpoints @ [name endpoint],
                              st2\<lparr>trace := trace st2 @ [Sleep backoff_time]\<rparr>))
               else Inr (None, tried_endpoints @ [name endpoint], st2)))"

function inference_loop ::
  "AIModelRouterConfig \<Rightarrow> env \<Rightarrow> string \<Rightarrow> string \<Rightarrow> metadata option \<Rightarrow> nat \<Rightarrow> string list \<Rightarrow> router
     \<Rightarrow> py_error + (outcome \<times> router)" where
  "inference_loop cfg ev cache_key data md attempts tried_endpoints st =
     (if int attempts < max_attempts (retry_config cfg) then
        (case loop_body cfg ev cache_key data md attempts tried_endpoints st of
           Inl err \<Rightarrow> Inl err
         | Inr (Some out, tried, st1) \<Rightarrow> Inr (out, st1)
         | Inr (None, tried, st1) \<Rightarrow>
             inference_loop cfg ev cache_key data md (Suc attempts) tried st1)
      else Inr (RetriesExhausted, st))"
  by pat_completeness auto
termination
  by (relation "measure (\<lambda>(cfg, ev, ck, d, md, attempts, tr, st).
        nat (max_attempts (retry_config cfg) - int attempts))") auto

declare inference_loop.simps [simp del]

definition inference ::
  "AIModelRouterConfig \<Rightarrow> env \<Rightarrow> string \<Rightarrow> string \<Rightarrow> metadata option \<Rightarrow> router
     \<Rightarrow> py_error + (outcome \<times> router)" where
  "inference cfg ev model_type data md st =
     (let cache_key = get_cache_key ev model_type data md
      in case cache st cache_key of
           Some entry \<Rightarrow> Inr (CacheHit (response entry), st)
         | None \<Rightarrow> inference_loop cfg ev cache_key data md 0 [] st)"

section \<open>The Health Reconciler\<close>

definition check_endpoint_health :: "env \<Rightarrow> EndpointConfig \<Rightarrow> router \<Rightarrow> bool \<times> router" where
  "check_endpoint_health ev endpoint st =
     (let st1 = st\<lparr>probes := Suc (probes st), trace := trace st @ [Probe (name endpoint)]\<rparr>
      in if etype endpoint = ''http'' then (http_head_ok ev (probes st) endpoint, st1)
         else if etype endpoint = ''websocket'' then (ws_connect_ok ev (probes st) endpoint, st1)
         else (False, st))"

text \<open>The body of the \<^verbatim>\<open>for\<close> loop of \<^verbatim>\<open>health_check\<close>, for one endpoint.\<close>

definition health_check_endpoint ::
  "AIModelRouterConfig \<Rightarrow> env \<Rightarrow> EndpointConfig \<Rightarrow> router \<Rightarrow> py_error + router" where
  "health_check_endpoint cfg ev endpoint st =
     (case circuit_states st (name endpoint) of
        None \<Rightarrow> Inl KeyError
      | Some s \<Rightarrow>
          (let st1 =
                 (if s = Open then
                    (let (now, st0) = time_time ev st
                     in if now - last_failure_time st0 (name endpoint)
                             > real_of_int (recovery_timeout (circuit_breaker cfg))
                        then st0\<lparr>circuit_states := (circuit_states st0)(name endpoint \<mapsto> HalfOpen)\<rparr>
                        else st0)
                  else st)
           in case circuit_states st1 (name endpoint) of
                None \<Rightarrow> Inl KeyError
              | Some s1 \<Rightarrow>
                  if s1 = HalfOpen then
                    (let (is_healthy, st2) = check_endpoint_health ev endpoint st1
                     in if is_healthy then reset_circuit (name endpoint) st2
                        else Inr (trip_circuit ev (name endpoint) st2))
                  else Inr st1))"

fun health_check_loop ::
  "AIModelRouterConfig \<Rightarrow> env \<Rightarrow> EndpointConfig list \<Rightarrow> router \<Rightarrow> py_error + router" where
  "health_check_loop cfg ev [] st = Inr st"
| "health_check_loop cfg ev (e # es) st =
     (case health_check_endpoint cfg ev e st of
        Inl err \<Rightarrow> Inl err
      | Inr st1 \<Rightarrow> health_check_loop cfg ev es st1)"

text \<open>The dictionary comprehension that \<^verbatim>\<open>health_check\<close> returns, as an association list.\<close>

fun snapshot :: "router \<Rightarrow> EndpointConfig list \<Rightarrow> py_error + (string \<times> circuit \<times> int) list" where
  "snapshot st [] = Inr []"
| "snapshot st (e # es) =
     (case circuit_states st (name e) of
        None \<Rightarrow> Inl KeyError
      | Some s \<Rightarrow>
          (case snapshot st es of
             Inl err \<Rightarrow> Inl err
           | Inr r \<Rightarrow> Inr ((name e, s, failure_counts st (name e)) # r)))"

definition health_check ::
  "AIModelRouterConfig \<Rightarrow> env \<Rightarrow> router \<Rightarrow> py_error + ((string \<times> circuit \<times> int) list \<times> router)" where
  "health_check cfg ev st =
     (case health_check_loop cfg ev (endpoints cfg) st of
        Inl err \<Rightarrow> Inl err
      | Inr st1 \<Rightarrow>
          (case snapshot st1 (endpoints cfg) of
             Inl err \<Rightarrow> Inl err
           | Inr snap \<Rightarrow> Inr (snap, st1)))"

section \<open>Well-formed routers, environments and traces\<close>

text \<open>
  The dictionaries \<^verbatim>\<open>circuit_states\<close> and \<^verbatim>\<open>metrics\<close> have an entry for every
  configured endpoint; the constructor establishes this and no operation removes a key.
\<close>

definition keys_ok :: "AIModelRouterConfig \<Rightarrow> router \<Rightarrow> bool" where
  "keys_ok cfg st \<longleftrightarrow>
     (\<forall>e \<in> set (endpoints cfg). circuit_states st (name e) \<noteq> None \<and> metrics st (name e) \<noteq> None)"

text \<open>
  The contract of the random generator: \<^verbatim>\<open>random.uniform(a, b)\<close> lies between \<open>a\<close> and
  \<open>b\<close>, and \<^verbatim>\<open>random.choice\<close> picks a position inside a non-empty list.
\<close>

definition rng_ok :: "env \<Rightarrow> bool" where
  "rng_ok ev \<longleftrightarrow>
     (\<forall>k a b. a \<le> b \<longrightarrow> a \<le> random_uniform ev k a b \<and> random_uniform ev k a b \<le> b)
     \<and> (\<forall>k n. 0 < n \<longrightarrow> random_choice ev k n < n)"


text \<open>Every endpoint speaks one of the two protocols, and no weight is negative.\<close>

definition types_ok :: "AIModelRouterConfig \<Rightarrow> bool" where
  "types_ok cfg \<longleftrightarrow> (\<forall>e \<in> set (endpoints cfg). etype e = ''http'' \<or> etype e = ''websocket'')"

definition weights_ok :: "AIModelRouterConfig \<Rightarrow> bool" where
  "weights_ok cfg \<longleftrightarrow> (\<forall>e \<in> set (endpoints cfg). 0 \<le> weight e)"

text \<open>The two invariants of a metrics entry.\<close>

definition metrics_ok :: "metrics_entry \<Rightarrow> bool" where
  "metrics_ok m \<longleftrightarrow>
     request_count m = success_count m + error_count m
     \<and> (request_count m > 0 \<longrightarrow>
          average_latency m = total_latency m / real_of_int (request_count m))"

definition metrics_inv :: "router \<Rightarrow> bool" where
  "metrics_inv st \<longleftrightarrow> (\<forall>n m. get_metrics st n = Some m \<longrightarrow> metrics_ok m)"

text \<open>
  The routers that a configuration can reach: the freshly constructed one, and every
  router left behind by a metrics update, by a call of \<^verbatim>\<open>inference\<close> or by a health
  sweep, in any environment and in any order.
\<close>

inductive reachable :: "AIModelRouterConfig \<Rightarrow> router \<Rightarrow> bool" for cfg :: AIModelRouterConfig where
  reach_init: "reachable cfg (init cfg)"
| reach_record: "reachable cfg st \<Longrightarrow> update_metrics n latency success st = Inr st1
     \<Longrightarrow> reachable cfg st1"
| reach_inference: "reachable cfg st \<Longrightarrow> inference cfg ev model_type data md st = Inr (out, st1)
     \<Longrightarrow> reachable cfg st1"
| reach_health: "reachable cfg st \<Longrightarrow> health_check cfg ev st = Inr (snap, st1)
     \<Longrightarrow> reachable cfg st1"

text \<open>
  \<open>later cfg st st1\<close>: the router \<open>st1\<close> is what \<open>st\<close> has become after any number of calls
  of \<^verbatim>\<open>inference\<close> and health sweeps, in any environments.
\<close>

inductive later :: "AIModelRouterConfig \<Rightarrow> router \<Rightarrow> router \<Rightarrow> bool"
  for cfg :: AIModelRouterConfig and st :: router where
  later_refl: "later cfg st st"
| later_inference: "later cfg st st1 \<Longrightarrow> inference cfg ev model_type data md st1 = Inr (out, st2)
     \<Longrightarrow> later cfg st st2"
| later_health: "later cfg st st1 \<Longrightarrow> health_check cfg ev st1 = Inr (snap, st2)
     \<Longrightarrow> later cfg st st2"

text \<open>The candidates of the Selector, as the specification describes them.\<close>

definition candidates :: "AIModelRouterConfig \<Rightarrow> string list \<Rightarrow> router \<Rightarrow> EndpointConfig list" where
  "candidates cfg exclude_names st =
     filter (\<lambda>e. circuit_states st (name e) \<noteq> Some Open \<and> name e \<notin> set exclude_names)
       (endpoints cfg)"

text \<open>The back-off sleeps of a trace, and the number of failed attempts it records.\<close>

fun sleeps_of :: "event list \<Rightarrow> real list" where
  "sleeps_of [] = []"
| "sleeps_of (Sleep d # evs) = d # sleeps_of evs"
| "sleeps_of (_ # evs) = sleeps_of evs"

fun failures_of :: "event list \<Rightarrow> nat" where
  "failures_of [] = 0"
| "failures_of (Failed n # evs) = Suc (failures_of evs)"
| "failures_of (_ # evs) = failures_of evs"

text \<open>
  The health sweep on one endpoint as the specification words it, on the endpoint's
  circuit state, failure count and time of last failure: an open circuit whose recovery
  time-out has passed at time \<open>now\<close> becomes half-open; a half-open circuit is probed, and
  closes with the failures reset when the probe succeeds, or opens again with the time
  of the failure refreshed to \<open>now2\<close> when it fails.
\<close>

definition sweep_spec :: "int \<Rightarrow> real \<Rightarrow> bool \<Rightarrow> real \<Rightarrow> circuit \<times> int \<times> real \<Rightarrow> circuit \<times> int \<times> real" where
  "sweep_spec recovery now healthy now2 c =
     (case c of (s, f, l) \<Rightarrow>
        (let s1 = (if s = Open \<and> now - l > real_of_int recovery then HalfOpen else s)
         in if s1 = HalfOpen then (if healthy then (Closed, 0, l) else (Open, f, now2))
            else (s1, f, l)))"

text \<open>The outcome of the \<open>k\<close>-th health probe, sent to the given endpoint.\<close>

definition probe_outcome :: "env \<Rightarrow> nat \<Rightarrow> EndpointConfig \<Rightarrow> bool" where
  "probe_outcome ev k endpoint =
     (if etype endpoint = ''http'' then http_head_ok ev k endpoint
      else if etype endpoint = ''websocket'' then ws_connect_ok ev k endpoint
      else False)"

text \<open>The circuit state, failure count and time of last failure of one endpoint.\<close>

definition circuit_of :: "router \<Rightarrow> string \<Rightarrow> circuit option \<times> int \<times> real" where
  "circuit_of st n = (circuit_states st n, failure_counts st n, last_failure_time st n)"

section \<open>Example configurations and environments\<close>

text \<open>
  A scripted environment: the clock shows the number of earlier readings, the \<open>k\<close>-th
  transport request has the outcome \<open>outcomes k\<close>, a random draw from an interval lies at
  the fraction \<open>draw\<close> of it, and every health probe has the outcome \<open>healthy\<close>.
\<close>

definition scripted :: "(nat \<Rightarrow> response option) \<Rightarrow> real \<Rightarrow> bool \<Rightarrow> env" where
  "scripted outcomes draw healthy =
     \<lparr> time_at = real,
       make_http_request = (\<lambda>k _ _ _. outcomes k),
       make_websocket_request = (\<lambda>k _ _ _. outcomes k),
       random_uniform = (\<lambda>_ a b. a + (b - a) * draw),
       random_choice = (\<lambda>_ _. 0),
       http_head_ok = (\<lambda>_ _. healthy),
       ws_connect_ok = (\<lambda>_ _. healthy),
       sha256_hexdigest = (\<lambda>s. s),
       str_sorted_items = (\<lambda>m. concat (map (\<lambda>(k, v). k @ v) m)) \<rparr>"

definition env_down :: env where
  "env_down = scripted (\<lambda>_. None) 1 False"

text \<open>The same environment with every random draw at the lower end of its interval.\<close>

definition env_low :: env where
  "env_low = scripted (\<lambda>_. None) 0 False"

definition ep_a :: EndpointConfig where
  "ep_a = \<lparr>name = ''a'', url = ''http://a'', etype = ''http'', weight = 100, timeout = 5\<rparr>"

definition ep_b :: EndpointConfig where
  "ep_b = \<lparr>name = ''b'', url = ''ws://b'', etype = ''websocket'', weight = 10, timeout = 3\<rparr>"

definition ep_z :: EndpointConfig where
  "ep_z = \<lparr>name = ''z'', url = ''http://z'', etype = ''http'', weight = 0, timeout = 5\<rparr>"

definition cfg_one :: AIModelRouterConfig where
  "cfg_one = \<lparr>endpoints = [ep_a],
      retry_config = \<lparr>max_attempts = 3, backoff_factor = 2\<rparr>,
      circuit_breaker = \<lparr>failure_threshold = 2, recovery_timeout = 10\<rparr>\<rparr>"

definition cfg_two :: AIModelRouterConfig where
  "cfg_two = \<lparr>endpoints = [ep_a, ep_b],
      retry_config = \<lparr>max_attempts = 3, backoff_factor = 2\<rparr>,
      circuit_breaker = \<lparr>failure_threshold = 2, recovery_timeout = 10\<rparr>\<rparr>"

definition cfg_zero :: AIModelRouterConfig where
  "cfg_zero = \<lparr>endpoints = [ep_z, ep_b],
      retry_config = \<lparr>max_attempts = 3, backoff_factor = 2\<rparr>,
      circuit_breaker = \<lparr>failure_threshold = 2, recovery_timeout = 10\<rparr>\<rparr>"

text \<open>The router after an operation that returned (and the router as it was, had it raised).\<close>

definition state_after :: "py_error + ('a \<times> router) \<Rightarrow> router \<Rightarrow> router" where
  "state_after r st = (case r of Inl _ \<Rightarrow> st | Inr (_, st1) \<Rightarrow> st1)"

text \<open>The single-endpoint router after one call whose only attempt failed.\<close>

definition st_failed_once :: router where
  "st_failed_once =
     state_after (inference cfg_one env_down ''stt'' ''audio'' None (init cfg_one)) (init cfg_one)"

definition env_up :: env where
  "env_up = scripted (\<lambda>_. Some [(''result'', ''ok'')]) 1 True"

text \<open>The single-endpoint router after one failed call followed by a successful one.\<close>

definition st_recovered :: router where
  "st_recovered =
     state_after (inference cfg_one env_up ''stt'' ''audio'' None st_failed_once) st_failed_once"

text \<open>The single-endpoint router after two calls whose only attempt failed.\<close>

definition st_tripped :: router where
  "st_tripped =
     state_after (inference cfg_one env_down ''stt'' ''audio'' None st_failed_once) st_failed_once"

text \<open>The same router after a further successful call with other arguments.\<close>

definition st_second :: router where
  "st_second =
     state_after (inference cfg_one env_up ''tts'' ''text'' None st_recovered) st_recovered"

text \<open>The single endpoint with one attempt per call, and the router after a failed call.\<close>

definition cfg_once :: AIModelRouterConfig where
  "cfg_once = \<lparr>endpoints = [ep_a],
      retry_config = \<lparr>max_attempts = 1, backoff_factor = 2\<rparr>,
      circuit_breaker = \<lparr>failure_threshold = 2, recovery_timeout = 10\<rparr>\<rparr>"

definition st_exhausted :: router where
  "st_exhausted =
     state_after (inference cfg_once env_down ''stt'' ''audio'' None (init cfg_once)) (init cfg_once)"

text \<open>
  Two endpoints and a transport whose first request fails and whose later requests succeed:
  the router after the first iteration of the loop, and after the call.
\<close>

definition env_flaky :: env where
  "env_flaky = scripted (\<lambda>k. if k = 0 then None else Some [(''result'', ''ok'')]) 1 True"

definition loop_state ::
  "py_error + (outcome option \<times> string list \<times> router) \<Rightarrow> router \<Rightarrow> router" where
  "loop_state r st = (case r of Inl _ \<Rightarrow> st | Inr (_, _, st1) \<Rightarrow> st1)"

definition st_retry :: router where
  "st_retry =
     loop_state (loop_body cfg_two env_flaky ''sttaudio'' ''audio'' None 0 [] (init cfg_two))
       (init cfg_two)"

definition st_retried :: router where
  "st_retried =
     state_after (inference cfg_two env_flaky ''stt'' ''audio'' None (init cfg_two)) (init cfg_two)"

text \<open>
  Two environments whose clock is past the recovery time-out, one with healthy probes and
  one with failing probes, and the router with the open circuit after a sweep in each.
\<close>

definition env_late_up :: env where
  "env_late_up = env_up\<lparr>time_at := (\<lambda>k. 100 + real k)\<rparr>"

definition env_late_down :: env where
  "env_late_down = env_down\<lparr>time_at := (\<lambda>k. 100 + real k)\<rparr>"

definition st_healed :: router where
  "st_healed = state_after (health_check cfg_one env_late_up st_tripped) st_tripped"

definition st_reopened :: router where
  "st_reopened = state_after (health_check cfg_one env_late_down st_tripped) st_tripped"

text \<open>Two endpoints and a back-off factor whose square is too large for a float.\<close>

definition cfg_overflow :: AIModelRouterConfig where
  "cfg_overflow = \<lparr>endpoints = [ep_a, ep_b],
      retry_config = \<lparr>max_attempts = 3, backoff_factor = - (10 ^ 200)\<rparr>,
      circuit_breaker = \<lparr>failure_threshold = 2, recovery_timeout = 10\<rparr>\<rparr>"

text \<open>
  A call that prefers the endpoint \<open>a\<close>, made when the circuit of \<open>a\<close> is open, and the
  router after it.
\<close>

definition md_pref_a :: "metadata option" where
  "md_pref_a = Some [(''endpoint_pref'', ''a'')]"

definition st_pref_open :: router where
  "st_pref_open =
     state_after (inference cfg_one env_down ''stt'' ''audio'' md_pref_a st_tripped) st_tripped"

text \<open>The router after a successful call that prefers \<open>a\<close> while its circuit is open.\<close>

definition st_pref_recovered :: router where
  "st_pref_recovered =
     state_after (inference cfg_one env_up ''stt'' ''audio'' md_pref_a st_tripped) st_tripped"

section \<open>Evaluation and basic facts\<close>

lemmas example_defs = scripted_def env_down_def env_up_def env_low_def env_flaky_def
  env_late_up_def env_late_down_def loop_state_def ep_a_def ep_b_def ep_z_def
  cfg_one_def cfg_two_def cfg_zero_def cfg_once_def cfg_overflow_def state_after_def

lemmas model_defs = inference_def inference_loop.simps get_cache_key_def loop_body_def float_pow_def
  float_overflow_def float_max_def choose_endpoint_def
  preferred_endpoint_def select_endpoint_def attempt_def make_request_def time_time_def
  update_metrics_def bump_metrics_def reset_circuit_def handle_failure_def trip_circuit_def
  init_def Let_def

lemma st_failed_once_fields:
  "circuit_states st_failed_once ''a'' = Some Closed"
  "failure_counts st_failed_once ''a'' = 1"
  "cache st_failed_once = Map.empty"
  by (simp_all add: st_failed_once_def example_defs model_defs)

lemma st_tripped_fields:
  "circuit_states st_tripped ''a'' = Some Open"
  "failure_counts st_tripped ''a'' = 2"
  "cache st_tripped = Map.empty"
  by (simp_all add: st_tripped_def st_failed_once_def example_defs model_defs)

lemma trip_circuit_fields:
  "circuit_states (trip_circuit ev n st) = (circuit_states st)(n \<mapsto> Open)"
  "failure_counts (trip_circuit ev n st) = failure_counts st"
  "last_failure_time (trip_circuit ev n st) = (last_failure_time st)(n := time_at ev (clock_reads st))"
  "cache (trip_circuit ev n st) = cache st"
  "metrics (trip_circuit ev n st) = metrics st"
  "clock_reads (trip_circuit ev n st) = Suc (clock_reads st)"
  "rng_draws (trip_circuit ev n st) = rng_draws st"
  "requests (trip_circuit ev n st) = requests st"
  "probes (trip_circuit ev n st) = probes st"
  "trace (trip_circuit ev n st) = trace st"
  by (simp_all add: trip_circuit_def time_time_def)

lemma active_endpoints_sound:
  "active_endpoints cs ex es = Inr act \<Longrightarrow> e \<in> set act \<Longrightarrow>
     e \<in> set es \<and> cs (name e) \<noteq> None \<and> cs (name e) \<noteq> Some Open \<and> name e \<notin> set ex"
  by (induction es arbitrary: act) (auto split: option.splits sum.splits if_splits)

lemma walk_mem: "walk sel cw es = Some e \<Longrightarrow> e \<in> set es"
  by (induction es arbitrary: cw) (auto simp: Let_def split: if_splits)

lemma select_endpoint_sound:
  assumes "select_endpoint cfg ev ex st = Inr (Some e, st')"
  shows "e \<in> set (endpoints cfg) \<and> circuit_states st (name e) \<noteq> None
         \<and> circuit_states st (name e) \<noteq> Some Open \<and> name e \<notin> set ex"
proof -
  from assms obtain act where act: "active_endpoints (circuit_states st) ex (endpoints cfg) = Inr act"
    and mem: "e \<in> set act"
    by (auto simp: select_endpoint_def Let_def split: sum.splits if_splits dest: walk_mem)
  from active_endpoints_sound[OF act mem] show ?thesis .
qed

section \<open>Failure handling\<close>

text \<open>
  Claim C5. On a failed dispatch to an endpoint: when its circuit is closed, the failure
  count goes up by one, and when the new count reaches the failure threshold the circuit
  becomes open and the time of the failure is recorded; when its circuit is half-open,
  the one failure opens it again. The Selector never returns an endpoint whose circuit
  is open.
\<close>

theorem handle_failure_transitions:
  "(case circuit_states st n of
      None \<Rightarrow> handle_failure cfg ev n st = Inl KeyError
    | Some Closed \<Rightarrow>
        (\<exists>st'. handle_failure cfg ev n st = Inr st'
           \<and> failure_counts st' n = failure_counts st n + 1
           \<and> (if failure_counts st n + 1 \<ge> failure_threshold (circuit_breaker cfg)
              then circuit_states st' n = Some Open
                   \<and> last_failure_time st' n = time_at ev (clock_reads st)
              else circuit_states st' n = Some Closed
                   \<and> last_failure_time st' n = last_failure_time st n))
    | Some HalfOpen \<Rightarrow>
        (\<exists>st'. handle_failure cfg ev n st = Inr st'
           \<and> circuit_states st' n = Some Open
           \<and> last_failure_time st' n = time_at ev (clock_reads st)
           \<and> failure_counts st' n = failure_counts st n)
    | Some Open \<Rightarrow> handle_failure cfg ev n st = Inr st)
   \<and> (\<forall>ex e st'. select_endpoint cfg ev ex st = Inr (Some e, st')
          \<longrightarrow> circuit_states st (name e) \<noteq> Some Open)"
proof
  show "case circuit_states st n of
      None \<Rightarrow> handle_failure cfg ev n st = Inl KeyError
    | Some Closed \<Rightarrow>
        (\<exists>st'. handle_failure cfg ev n st = Inr st'
           \<and> failure_counts st' n = failure_counts st n + 1
           \<and> (if failure_counts st n + 1 \<ge> failure_threshold (circuit_breaker cfg)
              then circuit_states st' n = Some Open
                   \<and> last_failure_time st' n = time_at ev (clock_reads st)
              else circuit_states st' n = Some Closed
                   \<and> last_failure_time st' n = last_failure_time st n))
    | Some HalfOpen \<Rightarrow>
        (\<exists>st'. handle_failure cfg ev n st = Inr st'
           \<and> circuit_states st' n = Some Open
           \<and> last_failure_time st' n = time_at ev (clock_reads st)
           \<and> failure_counts st' n = failure_counts st n)
    | Some Open \<Rightarrow> handle_failure cfg ev n st = Inr st"
    by (cases "failure_threshold (circuit_breaker cfg) \<le> failure_counts st n + 1")
      (simp_all add: handle_failure_def Let_def trip_circuit_fields
         split: option.split circuit.split)
next
  show "\<forall>ex e st'. select_endpoint cfg ev ex st = Inr (Some e, st')
          \<longrightarrow> circuit_states st (name e) \<noteq> Some Open"
    using select_endpoint_sound by blast
qed

theorem handle_failure_transitions_witness:
  "select_endpoint cfg_one env_down [] st_failed_once
     = Inr (Some ep_a, st_failed_once\<lparr>rng_draws := 2\<rparr>)
   \<and> circuit_states st_failed_once (name ep_a) \<noteq> Some Open
   \<and> (\<exists>st'. handle_failure cfg_one env_down ''a'' st_failed_once = Inr st'
         \<and> failure_counts st' ''a'' = 2 \<and> circuit_states st' ''a'' = Some Open)"
proof -
  have sel: "select_endpoint cfg_one env_down [] st_failed_once
     = Inr (Some ep_a, st_failed_once\<lparr>rng_draws := 2\<rparr>)"
    by (simp add: st_failed_once_def example_defs model_defs)
  have thr: "failure_threshold (circuit_breaker cfg_one) = 2"
    by (simp add: cfg_one_def)
  note T = handle_failure_transitions
    [where st = st_failed_once and n = "''a''" and cfg = cfg_one and ev = env_down]
  from T sel have "circuit_states st_failed_once (name ep_a) \<noteq> Some Open"
    by blast
  moreover from T have "\<exists>st'. handle_failure cfg_one env_down ''a'' st_failed_once = Inr st'
         \<and> failure_counts st' ''a'' = 2 \<and> circuit_states st' ''a'' = Some Open"
    by (auto simp: st_failed_once_fields thr)
  ultimately show ?thesis using sel by simp
qed

text \<open>
  Claim C10. A failure recorded for an endpoint whose circuit is already open changes
  nothing: the handler returns the router as it was, so the circuit stays open and the
  failure count and the time of the last failure keep their values.
\<close>

theorem handle_failure_open_noop:
  "circuit_states st n = Some Open \<Longrightarrow> handle_failure cfg ev n st = Inr st"
  by (simp add: handle_failure_def)

theorem handle_failure_open_noop_witness:
  "circuit_states st_tripped ''a'' = Some Open
   \<and> handle_failure cfg_one env_down ''a'' st_tripped = Inr st_tripped"
  using handle_failure_open_noop [of st_tripped "''a''" cfg_one env_down]
  by (simp add: st_tripped_fields)

section \<open>Effects of the circuit operations and of one attempt\<close>

lemma reset_circuit_fields:
  assumes "reset_circuit n st = Inr st'"
  shows "circuit_states st' = (circuit_states st)(n \<mapsto> Closed)"
    and "failure_counts st' = (if circuit_states st n = Some Closed then failure_counts st
                               else (failure_counts st)(n := 0))"
    and "last_failure_time st' = last_failure_time st"
    and "cache st' = cache st" and "metrics st' = metrics st"
    and "clock_reads st' = clock_reads st" and "rng_draws st' = rng_draws st"
    and "requests st' = requests st" and "probes st' = probes st" and "trace st' = trace st"
    and "circuit_states st n \<noteq> None"
  using assms by (auto simp: reset_circuit_def fun_upd_idem split: option.splits if_splits)

lemma handle_failure_fields:
  assumes "handle_failure cfg ev n st = Inr st'"
  shows "cache st' = cache st" and "metrics st' = metrics st"
    and "rng_draws st' = rng_draws st"
    and "requests st' = requests st" and "probes st' = probes st" and "trace st' = trace st"
    and "circuit_states st n \<noteq> None"
    and "circuit_states st' k = None \<longleftrightarrow> circuit_states st k = None"
    and "m \<noteq> n \<Longrightarrow> circuit_of st' m = circuit_of st m"
  using assms
  by (auto simp: handle_failure_def Let_def trip_circuit_fields fun_upd_idem circuit_of_def
      split: option.splits circuit.splits if_splits)

lemma select_endpoint_state:
  assumes "select_endpoint cfg ev ex st = Inr (r, st')"
  shows "st' = st \<or> st' = st\<lparr>rng_draws := Suc (rng_draws st)\<rparr>"
  using assms by (auto simp: select_endpoint_def Let_def split: sum.splits if_splits)

lemma attempt_success:
  assumes "attempt cfg ev e ck data md st = Inr (Some resp, st')"
  shows "circuit_states st' = (circuit_states st)(name e \<mapsto> Closed)"
    and "failure_counts st' = (if circuit_states st (name e) = Some Closed then failure_counts st
                               else (failure_counts st)(name e := 0))"
    and "last_failure_time st' = last_failure_time st"
    and "cache st' = (cache st)(ck \<mapsto>
            \<lparr>timestamp = time_at ev (Suc (Suc (clock_reads st))), response = resp\<rparr>)"
    and "\<exists>m. metrics st (name e) = Some m \<and> metrics st' = (metrics st)(name e \<mapsto>
            bump_metrics (time_at ev (Suc (clock_reads st)) - time_at ev (clock_reads st)) True m)"
    and "trace st' = trace st @ [Request (name e)]"
    and "requests st' = Suc (requests st)"
    and "rng_draws st' = rng_draws st" and "probes st' = probes st"
    and "clock_reads st' = clock_reads st + 3"
    and "circuit_states st (name e) \<noteq> None"
    and "(etype e = ''http'' \<and> make_http_request ev (requests st) e data md = Some resp)
         \<or> (etype e \<noteq> ''http'' \<and> etype e = ''websocket''
             \<and> make_websocket_request ev (requests st) e data md = Some resp)"
  using assms
  by (auto simp: attempt_def make_request_def time_time_def Let_def
        update_metrics_def reset_circuit_def fun_upd_idem
        split: option.splits sum.splits if_splits prod.splits)

text \<open>
  A failed attempt: the router \<open>st4\<close> is the one on which the failure handler runs.
\<close>

lemma attempt_failure:
  assumes "attempt cfg ev e ck data md st = Inr (None, st')"
  shows "\<exists>m st4. handle_failure cfg ev (name e) st4 = Inr st'
       \<and> metrics st (name e) = Some m
       \<and> metrics st4 = (metrics st)(name e \<mapsto>
            bump_metrics (time_at ev (Suc (clock_reads st)) - time_at ev (clock_reads st)) False m)
       \<and> circuit_states st4 = circuit_states st
       \<and> failure_counts st4 = failure_counts st
       \<and> last_failure_time st4 = last_failure_time st
       \<and> cache st4 = cache st
       \<and> clock_reads st4 = Suc (Suc (clock_reads st))
       \<and> rng_draws st4 = rng_draws st
       \<and> probes st4 = probes st
       \<and> requests st4 = (if etype e = ''http'' \<or> etype e = ''websocket''
                          then Suc (requests st) else requests st)
       \<and> trace st4 = trace st @ (if etype e = ''http'' \<or> etype e = ''websocket''
                                  then [Request (name e)] else []) @ [Failed (name e)]"
  using assms
  by (fastforce simp: attempt_def make_request_def time_time_def Let_def update_metrics_def
        split: option.splits sum.splits if_splits prod.splits)

section \<open>The loop of the Dispatcher\<close>

lemma preferred_endpoint_mem: "preferred_endpoint md eps = Some e \<Longrightarrow> e \<in> set eps"
  by (auto simp: preferred_endpoint_def find_Some_iff split: option.splits if_splits)

lemma choose_endpoint_state:
  assumes "choose_endpoint cfg ev md a tr st = Inr (r, st1)"
  shows "st1 = st \<or> st1 = st\<lparr>rng_draws := Suc (rng_draws st)\<rparr>"
  using assms
  by (auto simp: choose_endpoint_def split: option.splits if_splits dest: select_endpoint_state)

lemma choose_endpoint_mem:
  assumes "choose_endpoint cfg ev md a tr st = Inr (Some e, st1)"
  shows "e \<in> set (endpoints cfg)"
  using assms
  by (auto simp: choose_endpoint_def split: option.splits if_splits
      dest: select_endpoint_sound preferred_endpoint_mem)

lemma loop_body_cases:
  assumes "loop_body cfg ev ck data md a tr st = Inr (r, tr', st')"
  obtains (unavailable) "choose_endpoint cfg ev md a tr st = Inr (None, st')"
      "r = Some Unavailable" "tr' = tr"
  | (success) e st1 resp where "choose_endpoint cfg ev md a tr st = Inr (Some e, st1)"
      "attempt cfg ev e ck data md st1 = Inr (Some resp, st')"
      "r = Some (Success resp)" "tr' = tr @ [name e]"
  | (failure) e st1 st2 where "choose_endpoint cfg ev md a tr st = Inr (Some e, st1)"
      "attempt cfg ev e ck data md st1 = Inr (None, st2)"
      "r = None" "tr' = tr @ [name e]"
      "st' = (if int (Suc a) < max_attempts (retry_config cfg)
              then st2\<lparr>trace := trace st2 @ [Sleep (backoff_factor (retry_config cfg) ^ Suc a)]\<rparr>
              else st2)"
  using assms
  by (auto simp: loop_body_def float_pow_def split: sum.splits option.splits prod.splits if_splits)

text \<open>
  A property of the router that every iteration keeps holds when the loop returns.
\<close>

lemma inference_loop_invariant:
  assumes "inference_loop cfg ev ck data md a tr st = Inr (out, st')"
    and "P st"
    and step: "\<And>a tr st r tr' st'. P st \<Longrightarrow>
            loop_body cfg ev ck data md a tr st = Inr (r, tr', st') \<Longrightarrow> P st'"
  shows "P st'"
  using assms
proof (induction cfg ev ck data md a tr st rule: inference_loop.induct)
  case (1 cfg ev ck data md a tr st)
  show ?case
  proof (cases "int a < max_attempts (retry_config cfg)")
    case False
    with "1.prems" show ?thesis by (subst (asm) inference_loop.simps) simp
  next
    case True
    show ?thesis
    proof (cases "loop_body cfg ev ck data md a tr st")
      case (Inl err)
      with True "1.prems" show ?thesis by (subst (asm) inference_loop.simps) simp
    next
      case (Inr x)
      obtain r tr1 st1 where x: "x = (r, tr1, st1)" by (cases x)
      have P1: "P st1" using "1.prems"(2) Inr x "1.prems"(3) by blast
      show ?thesis
      proof (cases r)
        case None
        with True Inr x "1.prems" have "inference_loop cfg ev ck data md (Suc a) tr1 st1 = Inr (out, st')"
          by (subst (asm) inference_loop.simps) simp
        from "1.IH"[OF True Inr x[symmetric] None _ this P1] "1.prems"(3) show ?thesis by blast
      next
        case (Some o1)
        with True Inr x "1.prems" have "st' = st1" by (subst (asm) inference_loop.simps) simp
        with P1 show ?thesis by simp
      qed
    qed
  qed
qed

section \<open>Metrics\<close>

lemma bump_metrics_ok: "metrics_ok m \<Longrightarrow> metrics_ok (bump_metrics latency success m)"
  by (simp add: metrics_ok_def bump_metrics_def Let_def)

lemma metrics_inv_upd:
  "metrics_inv st \<Longrightarrow> metrics st n = Some m \<Longrightarrow>
     metrics st' = (metrics st)(n \<mapsto> bump_metrics latency success m) \<Longrightarrow> metrics_inv st'"
  by (auto simp: metrics_inv_def get_metrics_def bump_metrics_ok)

lemma metrics_inv_same: "metrics_inv st \<Longrightarrow> metrics st' = metrics st \<Longrightarrow> metrics_inv st'"
  by (simp add: metrics_inv_def get_metrics_def)

lemma metrics_inv_init: "metrics_inv (init cfg)"
proof -
  have "map_of (map (\<lambda>e. (name e, z)) es) n = Some m \<Longrightarrow> m = z" for es :: "EndpointConfig list" and n m
    and z :: metrics_entry
    by (induction es) (auto split: if_splits)
  then show ?thesis
    by (fastforce simp: metrics_inv_def get_metrics_def init_def metrics_ok_def)
qed

lemma update_metrics_inv:
  "update_metrics n latency success st = Inr st' \<Longrightarrow> metrics_inv st \<Longrightarrow> metrics_inv st'"
  by (auto simp: update_metrics_def split: option.splits intro: metrics_inv_upd)

lemma attempt_metrics_inv:
  assumes "attempt cfg ev e ck data md st = Inr (r, st')" and "metrics_inv st"
  shows "metrics_inv st'"
proof (cases r)
  case (Some resp)
  with assms(1) attempt_success(5)[of cfg ev e ck data md st resp st'] assms(2)
  show ?thesis by (auto intro: metrics_inv_upd)
next
  case None
  with assms(1) obtain m st4 where h: "handle_failure cfg ev (name e) st4 = Inr st'"
    "metrics st (name e) = Some m"
    "metrics st4 = (metrics st)(name e \<mapsto>
        bump_metrics (time_at ev (Suc (clock_reads st)) - time_at ev (clock_reads st)) False m)"
    using attempt_failure[of cfg ev e ck data md st st'] by blast
  from metrics_inv_upd[OF assms(2) h(2,3)] have "metrics_inv st4" .
  with handle_failure_fields(2)[OF h(1)] show ?thesis by (auto intro: metrics_inv_same)
qed

lemma choose_endpoint_metrics_inv:
  "choose_endpoint cfg ev md a tr st = Inr (r, st1) \<Longrightarrow> metrics_inv st \<Longrightarrow> metrics_inv st1"
  by (drule choose_endpoint_state) (auto intro: metrics_inv_same)

lemma loop_body_metrics_inv:
  assumes "loop_body cfg ev ck data md a tr st = Inr (r, tr', st')" and "metrics_inv st"
  shows "metrics_inv st'"
  using assms(1)
proof (cases rule: loop_body_cases)
  case unavailable
  with assms(2) show ?thesis by (auto dest: choose_endpoint_metrics_inv)
next
  case (success e st1 resp)
  with assms(2) show ?thesis by (auto dest: choose_endpoint_metrics_inv attempt_metrics_inv)
next
  case (failure e st1 st2)
  with assms(2) have "metrics_inv st2"
    by (auto dest: choose_endpoint_metrics_inv attempt_metrics_inv)
  with failure(5) show ?thesis by (auto intro: metrics_inv_same)
qed

lemma inference_metrics_inv:
  assumes "inference cfg ev model_type data md st = Inr (out, st')" and "metrics_inv st"
  shows "metrics_inv st'"
proof (cases "cache st (get_cache_key ev model_type data md)")
  case (Some entry)
  with assms show ?thesis by (simp add: inference_def)
next
  case None
  with assms(1) have "inference_loop cfg ev (get_cache_key ev model_type data md) data md 0 [] st
      = Inr (out, st')"
    by (simp add: inference_def)
  from inference_loop_invariant[where P = metrics_inv, OF this assms(2)] loop_body_metrics_inv
  show ?thesis by blast
qed

section \<open>Effects of a health sweep\<close>

lemma check_endpoint_health_fields:
  assumes "check_endpoint_health ev e st = (ok, st')"
  shows "circuit_states st' = circuit_states st" and "failure_counts st' = failure_counts st"
    and "last_failure_time st' = last_failure_time st"
    and "cache st' = cache st" and "metrics st' = metrics st"
    and "clock_reads st' = clock_reads st" and "rng_draws st' = rng_draws st"
    and "requests st' = requests st"
  using assms by (auto simp: check_endpoint_health_def Let_def split: if_splits)

lemma health_check_endpoint_frame:
  assumes "health_check_endpoint cfg ev e st = Inr st'"
  shows "cache st' = cache st" and "metrics st' = metrics st"
    and "requests st' = requests st" and "rng_draws st' = rng_draws st"
    and "clock_reads st \<le> clock_reads st'" and "probes st \<le> probes st'"
    and "circuit_states st' k = None \<longleftrightarrow> circuit_states st k = None"
    and "k \<noteq> name e \<Longrightarrow> circuit_of st' k = circuit_of st k"
  using assms
  by (auto simp: health_check_endpoint_def check_endpoint_health_def Let_def time_time_def
        reset_circuit_def trip_circuit_fields circuit_of_def
      split: option.splits if_splits prod.splits)

lemma health_check_loop_frame:
  assumes "health_check_loop cfg ev es st = Inr st'"
  shows "cache st' = cache st \<and> metrics st' = metrics st
    \<and> requests st' = requests st \<and> rng_draws st' = rng_draws st
    \<and> clock_reads st \<le> clock_reads st' \<and> probes st \<le> probes st'
    \<and> (circuit_states st' k = None \<longleftrightarrow> circuit_states st k = None)
    \<and> (k \<notin> name ` set es \<longrightarrow> circuit_of st' k = circuit_of st k)"
  using assms
proof (induction es arbitrary: st)
  case Nil
  then show ?case by simp
next
  case (Cons e es)
  then obtain st1 where s1: "health_check_endpoint cfg ev e st = Inr st1"
    and rest: "health_check_loop cfg ev es st1 = Inr st'"
    by (auto split: sum.splits)
  from Cons.IH[OF rest] health_check_endpoint_frame(1-6)[OF s1]
    health_check_endpoint_frame(7)[OF s1, of k] health_check_endpoint_frame(8)[OF s1, of k]
  show ?case by auto
qed

lemma health_check_frame:
  assumes "health_check cfg ev st = Inr (snap, st')"
  shows "cache st' = cache st" and "metrics st' = metrics st"
    and "requests st' = requests st"
    and "circuit_states st' k = None \<longleftrightarrow> circuit_states st k = None"
  using assms health_check_loop_frame[of cfg ev "endpoints cfg" st st' k]
  by (auto simp: health_check_def split: sum.splits)

lemma reachable_metrics_inv: "reachable cfg st \<Longrightarrow> metrics_inv st"
proof (induction rule: reachable.induct)
  case reach_init
  show ?case by (rule metrics_inv_init)
next
  case (reach_record st n latency success st1)
  then show ?case by (auto dest: update_metrics_inv)
next
  case (reach_inference st ev model_type data md out st1)
  then show ?case by (auto dest: inference_metrics_inv)
next
  case (reach_health st ev snap st1)
  then show ?case by (auto dest: health_check_frame(2) intro: metrics_inv_same)
qed

lemma st_failed_once_run:
  "inference cfg_one env_down ''stt'' ''audio'' None (init cfg_one) = Inr (Unavailable, st_failed_once)"
  by (simp add: st_failed_once_def example_defs model_defs)

lemma st_failed_once_reachable: "reachable cfg_one st_failed_once"
  using reach_inference [OF reach_init st_failed_once_run] .

text \<open>
  Claim C4. In every router that can be reached by metrics updates, calls of
  \<^verbatim>\<open>inference\<close> and health sweeps, in any order, every entry that \<^verbatim>\<open>get_metrics\<close> returns
  has \<open>request_count = success_count + error_count\<close>, and when its \<open>request_count\<close> is
  positive its \<open>average_latency\<close> is \<open>total_latency / request_count\<close>.
\<close>

theorem metrics_invariants:
  "reachable cfg st \<Longrightarrow> get_metrics st n = Some m \<Longrightarrow>
     request_count m = success_count m + error_count m
     \<and> (request_count m > 0 \<longrightarrow>
          average_latency m = total_latency m / real_of_int (request_count m))"
  using reachable_metrics_inv [of cfg st]
  by (simp add: metrics_inv_def metrics_ok_def)

theorem metrics_invariants_witness:
  "reachable cfg_one st_failed_once
   \<and> get_metrics st_failed_once ''a''
       = Some \<lparr>request_count = 1, success_count = 0, error_count = 1,
               total_latency = 1, average_latency = 1\<rparr>
   \<and> (1::int) = 0 + 1 \<and> (1::int) > 0 \<and> (1::real) = 1 / real_of_int 1"
proof -
  have g: "get_metrics st_failed_once ''a''
       = Some \<lparr>request_count = 1, success_count = 0, error_count = 1,
               total_latency = 1, average_latency = 1\<rparr>"
    by (simp add: st_failed_once_def get_metrics_def example_defs model_defs)
  from metrics_invariants [OF st_failed_once_reachable g] st_failed_once_reachable g
  show ?thesis by simp
qed

section \<open>A rule for the loop of the Dispatcher\<close>

text \<open>
  The loop returns a result with the property \<open>Q\<close> when an invariant \<open>I\<close> of the attempt
  counter, the list of tried endpoints and the router is kept by every failed iteration,
  and gives \<open>Q\<close> at each of the three exits.
\<close>

lemma inference_loop_rule:
  assumes "inference_loop cfg ev ck data md a tr st = Inr (out, st')"
    and "I a tr st"
    and "\<And>a tr st tr1 st1. I a tr st \<Longrightarrow> int a < max_attempts (retry_config cfg) \<Longrightarrow>
            loop_body cfg ev ck data md a tr st = Inr (None, tr1, st1) \<Longrightarrow> I (Suc a) tr1 st1"
    and "\<And>a tr st out1 tr1 st1. I a tr st \<Longrightarrow> int a < max_attempts (retry_config cfg) \<Longrightarrow>
            loop_body cfg ev ck data md a tr st = Inr (Some out1, tr1, st1) \<Longrightarrow> Q out1 st1"
    and "\<And>a tr st. I a tr st \<Longrightarrow> \<not> int a < max_attempts (retry_config cfg) \<Longrightarrow>
            Q RetriesExhausted st"
  shows "Q out st'"
  using assms
proof (induction cfg ev ck data md a tr st rule: inference_loop.induct)
  case (1 cfg ev ck data md a tr st)
  show ?case
  proof (cases "int a < max_attempts (retry_config cfg)")
    case False
    with "1.prems"(1) have "out = RetriesExhausted" "st' = st"
      by (subst (asm) inference_loop.simps, simp)+
    with "1.prems"(2,5) False show ?thesis by blast
  next
    case True
    show ?thesis
    proof (cases "loop_body cfg ev ck data md a tr st")
      case (Inl err)
      with True "1.prems"(1) show ?thesis by (subst (asm) inference_loop.simps) simp
    next
      case (Inr x)
      obtain r tr1 st1 where x: "x = (r, tr1, st1)" by (cases x)
      show ?thesis
      proof (cases r)
        case None
        with True Inr x "1.prems"(1)
        have run: "inference_loop cfg ev ck data md (Suc a) tr1 st1 = Inr (out, st')"
          by (subst (asm) inference_loop.simps) simp
        have I1: "I (Suc a) tr1 st1"
          using "1.prems"(3)[OF "1.prems"(2) True] Inr x None by simp
        show ?thesis
          by (rule "1.IH"[OF True Inr x[symmetric] None _ run I1 "1.prems"(3,4,5)]) auto
      next
        case (Some o1)
        with True Inr x "1.prems"(1) have "out = o1" "st' = st1"
          by (subst (asm) inference_loop.simps, simp)+
        with "1.prems"(4)[OF "1.prems"(2) True] Inr x Some show ?thesis by simp
      qed
    qed
  qed
qed

section \<open>A successful dispatch\<close>

lemma choose_endpoint_fresh:
  assumes "choose_endpoint cfg ev md a tr st = Inr (Some e, st1)" and "a = 0 \<longrightarrow> tr = []"
  shows "name e \<notin> set tr"
  using assms
  by (auto simp: choose_endpoint_def split: option.splits if_splits dest: select_endpoint_sound)

lemma choose_endpoint_circuit:
  assumes "choose_endpoint cfg ev md a tr st = Inr (r, st1)"
  shows "circuit_of st1 k = circuit_of st k" and "circuit_states st1 = circuit_states st"
    and "failure_counts st1 = failure_counts st"
  using choose_endpoint_state[OF assms] by (auto simp: circuit_of_def)

lemma attempt_failure_others:
  assumes "attempt cfg ev e ck data md st = Inr (None, st')" and "k \<noteq> name e"
  shows "circuit_of st' k = circuit_of st k"
proof -
  from attempt_failure[OF assms(1)] obtain st4 where
    h: "handle_failure cfg ev (name e) st4 = Inr st'" and
    same: "circuit_states st4 = circuit_states st" "failure_counts st4 = failure_counts st"
      "last_failure_time st4 = last_failure_time st"
    by blast
  from handle_failure_fields(9)[OF h assms(2)] same show ?thesis
    by (simp add: circuit_of_def)
qed

lemma loop_body_untried:
  assumes "loop_body cfg ev ck data md a tr st = Inr (None, tr1, st1)"
    and "k \<notin> set tr1"
  shows "circuit_of st1 k = circuit_of st k"
  using assms(1)
proof (cases rule: loop_body_cases)
  case (failure e s1 s2)
  with assms(2) have ne: "k \<noteq> name e" by auto
  from attempt_failure_others[OF failure(2) ne] choose_endpoint_circuit(1)[OF failure(1), of k]
  have "circuit_of s2 k = circuit_of st k" by simp
  with failure(5) show ?thesis by (simp add: circuit_of_def)
qed simp_all

lemma inference_hit:
  "cache st (get_cache_key ev model_type data md) = Some entry \<Longrightarrow>
     inference cfg ev model_type data md st = Inr (CacheHit (response entry), st)"
  by (simp add: inference_def Let_def)

lemma inference_miss:
  "cache st (get_cache_key ev model_type data md) = None \<Longrightarrow>
     inference cfg ev model_type data md st
       = inference_loop cfg ev (get_cache_key ev model_type data md) data md 0 [] st"
  by (simp add: inference_def Let_def)

lemma inference_not_hit:
  assumes "inference cfg ev model_type data md st = Inr (out, st')"
    and "\<forall>r. out \<noteq> CacheHit r"
  shows "cache st (get_cache_key ev model_type data md) = None"
  using assms by (cases "cache st (get_cache_key ev model_type data md)") (auto simp: inference_hit)

lemma inference_success_endpoint:
  assumes "inference cfg ev model_type data md st = Inr (Success resp, st')"
  shows "\<exists>e \<in> set (endpoints cfg).
           trace st' \<noteq> [] \<and> last (trace st') = Request (name e)
           \<and> circuit_states st' (name e) = Some Closed
           \<and> failure_counts st' (name e)
               = (if circuit_states st (name e) = Some Closed then failure_counts st (name e) else 0)"
proof -
  let ?ck = "get_cache_key ev model_type data md"
  let ?I = "\<lambda>(a::nat) tr s. (a = 0 \<longrightarrow> tr = []) \<and> (\<forall>k. k \<notin> set tr \<longrightarrow> circuit_of s k = circuit_of st k)"
  let ?Q = "\<lambda>out s. \<forall>r. out = Success r \<longrightarrow> (\<exists>e \<in> set (endpoints cfg).
           trace s \<noteq> [] \<and> last (trace s) = Request (name e)
           \<and> circuit_states s (name e) = Some Closed
           \<and> failure_counts s (name e)
               = (if circuit_states st (name e) = Some Closed then failure_counts st (name e) else 0))"
  from assms have miss: "cache st ?ck = None"
    by (auto dest: inference_not_hit)
  with assms have run: "inference_loop cfg ev ?ck data md 0 [] st = Inr (Success resp, st')"
    by (simp add: inference_miss)
  have "?Q (Success resp) st'"
  proof (rule inference_loop_rule[where I = ?I and Q = ?Q, OF run])
    show "?I 0 [] st" by simp
  next
    fix a tr s tr1 s1
    assume I: "?I a tr s" and body: "loop_body cfg ev ?ck data md a tr s = Inr (None, tr1, s1)"
    from body have sub: "set tr \<subseteq> set tr1" by (cases rule: loop_body_cases) auto
    show "?I (Suc a) tr1 s1"
    proof (intro conjI allI impI)
      fix k assume k: "k \<notin> set tr1"
      with sub have "k \<notin> set tr" by auto
      with I loop_body_untried[OF body k] show "circuit_of s1 k = circuit_of st k" by simp
    qed simp
  next
    fix a tr s out1 tr1 s1
    assume I: "?I a tr s"
      and body: "loop_body cfg ev ?ck data md a tr s = Inr (Some out1, tr1, s1)"
    from body show "?Q out1 s1"
    proof (cases rule: loop_body_cases)
      case unavailable
      then show ?thesis by simp
    next
      case (success e s0 r)
      from choose_endpoint_fresh[OF success(1)] I have fresh: "name e \<notin> set tr" by simp
      with I choose_endpoint_circuit(1)[OF success(1), of "name e"]
      have c: "circuit_of s0 (name e) = circuit_of st (name e)" by simp
      from attempt_success(1,2,6)[OF success(2)] c choose_endpoint_mem[OF success(1)] success(3)
      show ?thesis by (auto simp: circuit_of_def)
    next
      case (failure e s0 s2)
      then show ?thesis by simp
    qed
  next
    fix s :: router
    show "?Q RetriesExhausted s" by simp
  qed
  then show ?thesis by simp
qed

text \<open>
  Claim C1, as the code has it. A successful dispatch to an endpoint leaves its circuit
  closed. It sets the failure count to 0 when the circuit was not closed before, and
  leaves the count as it was when the circuit was closed already. This holds for the one
  attempt, and for the call of \<^verbatim>\<open>inference\<close> that returns the response of the endpoint
  contacted last.
\<close>

theorem success_closes_circuit:
  "(attempt cfg ev e ck data md st = Inr (Some resp, sta) \<longrightarrow>
      circuit_states sta (name e) = Some Closed
      \<and> failure_counts sta (name e)
          = (if circuit_states st (name e) = Some Closed then failure_counts st (name e) else 0))
   \<and> (inference cfg ev model_type data md st = Inr (Success resp, st') \<longrightarrow>
        (\<exists>e \<in> set (endpoints cfg).
           trace st' \<noteq> [] \<and> last (trace st') = Request (name e)
           \<and> circuit_states st' (name e) = Some Closed
           \<and> failure_counts st' (name e)
               = (if circuit_states st (name e) = Some Closed then failure_counts st (name e) else 0)))"
  using attempt_success(1,2)[of cfg ev e ck data md st resp sta]
    inference_success_endpoint[of cfg ev model_type data md st resp st']
  by simp

lemma st_recovered_run:
  "inference cfg_one env_up ''stt'' ''audio'' None st_failed_once
     = Inr (Success [(''result'', ''ok'')], st_recovered)"
  by (simp add: st_recovered_def st_failed_once_def example_defs model_defs)

lemma st_recovered_fields:
  "circuit_states st_recovered ''a'' = Some Closed"
  "failure_counts st_recovered ''a'' = 1"
  by (simp_all add: st_recovered_def st_failed_once_def example_defs model_defs)

lemma st_pref_recovered_run:
  "inference cfg_one env_up ''stt'' ''audio'' md_pref_a st_tripped
     = Inr (Success [(''result'', ''ok'')], st_pref_recovered)"
  "attempt cfg_one env_up ep_a (get_cache_key env_up ''stt'' ''audio'' md_pref_a) ''audio''
     md_pref_a st_tripped = Inr (Some [(''result'', ''ok'')], st_pref_recovered)"
  by (simp_all add: st_pref_recovered_def md_pref_a_def st_tripped_def st_failed_once_def
        example_defs model_defs)

theorem success_closes_circuit_witness:
  "circuit_states st_tripped (name ep_a) = Some Open
   \<and> failure_counts st_tripped (name ep_a) = 2
   \<and> attempt cfg_one env_up ep_a (get_cache_key env_up ''stt'' ''audio'' md_pref_a) ''audio''
        md_pref_a st_tripped = Inr (Some [(''result'', ''ok'')], st_pref_recovered)
   \<and> inference cfg_one env_up ''stt'' ''audio'' md_pref_a st_tripped
        = Inr (Success [(''result'', ''ok'')], st_pref_recovered)
   \<and> ep_a \<in> set (endpoints cfg_one)
   \<and> circuit_states st_pref_recovered (name ep_a) = Some Closed
   \<and> failure_counts st_pref_recovered (name ep_a) = 0
   \<and> inference cfg_one env_up ''stt'' ''audio'' None st_failed_once
        = Inr (Success [(''result'', ''ok'')], st_recovered)
   \<and> circuit_states st_failed_once (name ep_a) = Some Closed
   \<and> circuit_states st_recovered (name ep_a) = Some Closed
   \<and> failure_counts st_recovered (name ep_a) = failure_counts st_failed_once (name ep_a)"
proof -
  have eps: "set (endpoints cfg_one) = {ep_a}" by (simp add: cfg_one_def)
  have nm: "name ep_a = ''a''" by (simp add: ep_a_def)
  note T1 = success_closes_circuit
    [where cfg = cfg_one and ev = env_up and model_type = "''stt''" and data = "''audio''"
       and md = md_pref_a and st = st_tripped and resp = "[(''result'', ''ok'')]"
       and st' = st_pref_recovered and sta = st_pref_recovered and e = ep_a
       and ck = "get_cache_key env_up ''stt'' ''audio'' md_pref_a"]
  note T2 = success_closes_circuit
    [where cfg = cfg_one and ev = env_up and model_type = "''stt''" and data = "''audio''"
       and md = None and st = st_failed_once and resp = "[(''result'', ''ok'')]"
       and st' = st_recovered]
  from T1[THEN conjunct1] st_pref_recovered_run(2)
  have A: "circuit_states st_pref_recovered (name ep_a) = Some Closed
      \<and> failure_counts st_pref_recovered (name ep_a) = 0"
    by (simp add: nm st_tripped_fields)
  from T2[THEN conjunct2] st_recovered_run
  have B: "circuit_states st_recovered (name ep_a) = Some Closed
      \<and> failure_counts st_recovered (name ep_a) = failure_counts st_failed_once (name ep_a)"
    by (simp add: eps nm st_failed_once_fields)
  from A B st_pref_recovered_run st_recovered_run show ?thesis
    by (simp add: eps nm st_tripped_fields st_failed_once_fields)
qed

text \<open>
  Claim C1 as stated fails: after a failed call and then a successful one, the endpoint
  is closed and its failure count is still 1.
\<close>

theorem success_keeps_count_counterexample:
  "circuit_states st_failed_once ''a'' = Some Closed
   \<and> failure_counts st_failed_once ''a'' = 1
   \<and> inference cfg_one env_up ''stt'' ''audio'' None st_failed_once
       = Inr (Success [(''result'', ''ok'')], st_recovered)
   \<and> trace st_recovered = [Request ''a'', Failed ''a'', Sleep 2, Request ''a'']
   \<and> failure_counts st_recovered ''a'' \<noteq> 0"
  by (simp add: st_recovered_def st_failed_once_def example_defs model_defs)

section \<open>The trace of a call\<close>

lemma sleeps_of_append [simp]: "sleeps_of (xs @ ys) = sleeps_of xs @ sleeps_of ys"
  by (induction xs rule: sleeps_of.induct) simp_all

lemma failures_of_append [simp]: "failures_of (xs @ ys) = failures_of xs + failures_of ys"
  by (induction xs rule: failures_of.induct) simp_all

lemma choose_endpoint_trace:
  assumes "choose_endpoint cfg ev md a tr st = Inr (r, st1)"
  shows "trace st1 = trace st" and "requests st1 = requests st" and "cache st1 = cache st"
    and "metrics st1 = metrics st" and "clock_reads st1 = clock_reads st"
  using choose_endpoint_state[OF assms] by auto

lemma attempt_failure_trace:
  assumes "attempt cfg ev e ck data md st = Inr (None, st')"
  shows "trace st' = trace st @ (if etype e = ''http'' \<or> etype e = ''websocket''
                                  then [Request (name e)] else []) @ [Failed (name e)]"
    and "requests st' = (if etype e = ''http'' \<or> etype e = ''websocket''
                          then Suc (requests st) else requests st)"
    and "cache st' = cache st"
proof -
  from attempt_failure[OF assms] obtain st4 where h: "handle_failure cfg ev (name e) st4 = Inr st'"
    and f: "cache st4 = cache st"
      "requests st4 = (if etype e = ''http'' \<or> etype e = ''websocket''
                          then Suc (requests st) else requests st)"
      "trace st4 = trace st @ (if etype e = ''http'' \<or> etype e = ''websocket''
                                  then [Request (name e)] else []) @ [Failed (name e)]"
    by blast
  from handle_failure_fields(1,4,6)[OF h] f
  show "trace st' = trace st @ (if etype e = ''http'' \<or> etype e = ''websocket''
                                  then [Request (name e)] else []) @ [Failed (name e)]"
    and "requests st' = (if etype e = ''http'' \<or> etype e = ''websocket''
                          then Suc (requests st) else requests st)"
    and "cache st' = cache st"
    by simp_all
qed

text \<open>What one iteration of the loop adds to the trace.\<close>

lemma loop_body_trace:
  assumes "loop_body cfg ev ck data md a tr st = Inr (r, tr1, st1)"
  shows "(r = Some Unavailable \<and> trace st1 = trace st)
     \<or> (\<exists>e resp. e \<in> set (endpoints cfg) \<and> r = Some (Success resp)
           \<and> trace st1 = trace st @ [Request (name e)])
     \<or> (\<exists>e. e \<in> set (endpoints cfg) \<and> r = None
           \<and> trace st1 = trace st
               @ (if etype e = ''http'' \<or> etype e = ''websocket'' then [Request (name e)] else [])
               @ [Failed (name e)]
               @ (if int (Suc a) < max_attempts (retry_config cfg)
                  then [Sleep (backoff_factor (retry_config cfg) ^ Suc a)] else []))"
  using assms
proof (cases rule: loop_body_cases)
  case unavailable
  then show ?thesis by (simp add: choose_endpoint_trace(1))
next
  case (success e s0 resp)
  from attempt_success(6)[OF success(2)] choose_endpoint_trace(1)[OF success(1)]
    choose_endpoint_mem[OF success(1)] success(3)
  show ?thesis by auto
next
  case (failure e s0 s2)
  from attempt_failure_trace(1)[OF failure(2)] choose_endpoint_trace(1)[OF failure(1)]
    choose_endpoint_mem[OF failure(1)] failure(3,5)
  show ?thesis by auto
qed

text \<open>
  The trace of a call of the loop: it extends the trace; the sleeps are the powers of the
  back-off factor from the first on, one after each failed attempt but the last possible
  one; and the retries are exhausted only after \<open>max_attempts\<close> failed attempts.
\<close>

lemma inference_loop_trace:
  assumes "inference_loop cfg ev ck data md 0 [] st = Inr (out, st')"
  shows "\<exists>new. trace st' = trace st @ new
           \<and> sleeps_of new = map (\<lambda>i. backoff_factor (retry_config cfg) ^ i)
                 [1 ..< Suc (min (failures_of new) (nat (max_attempts (retry_config cfg) - 1)))]
           \<and> (out = RetriesExhausted \<longrightarrow>
                 int (failures_of new) = max 0 (max_attempts (retry_config cfg)))
           \<and> (out \<noteq> RetriesExhausted \<longrightarrow>
                 int (failures_of new) < max_attempts (retry_config cfg))"
proof -
  let ?bf = "backoff_factor (retry_config cfg)"
  let ?mx = "max_attempts (retry_config cfg)"
  let ?I = "\<lambda>(a::nat) (tr::string list) s. (a = 0 \<or> int a \<le> ?mx) \<and> (\<exists>new. trace s = trace st @ new
           \<and> failures_of new = a
           \<and> sleeps_of new = map (\<lambda>i. ?bf ^ i) [1 ..< Suc (min a (nat (?mx - 1)))])"
  let ?Q = "\<lambda>out s. \<exists>new. trace s = trace st @ new
           \<and> sleeps_of new = map (\<lambda>i. ?bf ^ i) [1 ..< Suc (min (failures_of new) (nat (?mx - 1)))]
           \<and> (out = RetriesExhausted \<longrightarrow> int (failures_of new) = max 0 ?mx)
           \<and> (out \<noteq> RetriesExhausted \<longrightarrow> int (failures_of new) < ?mx)"
  show ?thesis
  proof (rule inference_loop_rule[where I = ?I and Q = ?Q, OF assms])
    show "?I 0 [] st" by simp
  next
    fix a tr s tr1 s1
    assume I: "?I a tr s" and lt: "int a < ?mx"
      and body: "loop_body cfg ev ck data md a tr s = Inr (None, tr1, s1)"
    from I obtain new where new: "trace s = trace st @ new" "failures_of new = a"
      "sleeps_of new = map (\<lambda>i. ?bf ^ i) [1 ..< Suc (min a (nat (?mx - 1)))]"
      by blast
    from lt have mina: "min a (nat (?mx - 1)) = a" by linarith
    from loop_body_trace[OF body] obtain e :: EndpointConfig where
      t: "trace s1 = trace s
               @ (if etype e = ''http'' \<or> etype e = ''websocket'' then [Request (name e)] else [])
               @ [Failed (name e)]
               @ (if int (Suc a) < ?mx then [Sleep (?bf ^ Suc a)] else [])"
      by blast
    let ?add = "(if etype e = ''http'' \<or> etype e = ''websocket'' then [Request (name e)] else [])
               @ [Failed (name e)]
               @ (if int (Suc a) < ?mx then [Sleep (?bf ^ Suc a)] else [])"
    have f: "failures_of (new @ ?add) = Suc a" using new(2) by simp
    have s: "sleeps_of (new @ ?add) = map (\<lambda>i. ?bf ^ i) [1 ..< Suc (min (Suc a) (nat (?mx - 1)))]"
    proof (cases "int (Suc a) < ?mx")
      case True
      then have "min (Suc a) (nat (?mx - 1)) = Suc a" by linarith
      with True new(3) mina show ?thesis by simp
    next
      case False
      with lt have "min (Suc a) (nat (?mx - 1)) = a" by linarith
      with False new(3) mina show ?thesis by simp
    qed
    from lt have "int (Suc a) \<le> ?mx" by linarith
    moreover have "trace s1 = trace st @ (new @ ?add)" using t new(1) by simp
    ultimately show "?I (Suc a) tr1 s1" using f s by blast
  next
    fix a tr s out1 tr1 s1
    assume I: "?I a tr s" and lt: "int a < ?mx"
      and body: "loop_body cfg ev ck data md a tr s = Inr (Some out1, tr1, s1)"
    from I obtain new where new: "trace s = trace st @ new" "failures_of new = a"
      "sleeps_of new = map (\<lambda>i. ?bf ^ i) [1 ..< Suc (min a (nat (?mx - 1)))]"
      by blast
    from loop_body_trace[OF body] obtain add where
      t: "trace s1 = trace s @ add" "failures_of add = 0" "sleeps_of add = []"
        "out1 \<noteq> RetriesExhausted"
      by auto
    from t new lt have "trace s1 = trace st @ (new @ add)"
      "sleeps_of (new @ add) = map (\<lambda>i. ?bf ^ i) [1 ..< Suc (min (failures_of (new @ add)) (nat (?mx - 1)))]"
      "int (failures_of (new @ add)) < ?mx"
      by simp_all
    with t(4) show "?Q out1 s1" by blast
  next
    fix a :: nat and tr :: "string list" and s :: router
    assume I: "?I a tr s" and ge: "\<not> int a < ?mx"
    from I obtain new where new: "trace s = trace st @ new" "failures_of new = a"
      "sleeps_of new = map (\<lambda>i. ?bf ^ i) [1 ..< Suc (min a (nat (?mx - 1)))]"
      and a: "a = 0 \<or> int a \<le> ?mx"
      by blast
    from a ge have "int a = max 0 ?mx" by linarith
    with new show "?Q RetriesExhausted s" by auto
  qed
qed

section \<open>The preferred endpoint\<close>

lemma choose_endpoint_preferred:
  "preferred_endpoint md (endpoints cfg) = Some e \<Longrightarrow>
     choose_endpoint cfg ev md 0 tr st = Inr (Some e, st)"
  by (simp add: choose_endpoint_def)

lemma choose_endpoint_select:
  "a \<noteq> 0 \<or> preferred_endpoint md (endpoints cfg) = None \<Longrightarrow>
     choose_endpoint cfg ev md a tr st = select_endpoint cfg ev tr st"
  by (auto simp: choose_endpoint_def)

lemma inference_loop_trace_grows:
  assumes "inference_loop cfg ev ck data md a tr st = Inr (out, st')"
  shows "\<exists>rest. trace st' = trace st @ rest"
proof (rule inference_loop_invariant[where P = "\<lambda>s. \<exists>rest. trace s = trace st @ rest", OF assms])
  show "\<exists>rest. trace st = trace st @ rest" by simp
next
  fix a tr s r tr1 s1
  assume "\<exists>rest. trace s = trace st @ rest"
    and "loop_body cfg ev ck data md a tr s = Inr (r, tr1, s1)"
  with loop_body_trace[of cfg ev ck data md a tr s r tr1 s1]
  show "\<exists>rest. trace s1 = trace st @ rest" by auto
qed

text \<open>
  A call that finds nothing in the cache and has a preferred endpoint sends its first
  request to that endpoint, whatever the state of its circuit.
\<close>

lemma inference_preferred_first:
  assumes run: "inference cfg ev model_type data md st = Inr (out, st')"
    and miss: "cache st (get_cache_key ev model_type data md) = None"
    and pos: "0 < max_attempts (retry_config cfg)"
    and pref: "preferred_endpoint md (endpoints cfg) = Some e"
    and ty: "etype e = ''http'' \<or> etype e = ''websocket''"
  shows "\<exists>rest. trace st' = trace st @ Request (name e) # rest"
proof -
  let ?ck = "get_cache_key ev model_type data md"
  from run miss have loop: "inference_loop cfg ev ?ck data md 0 [] st = Inr (out, st')"
    by (simp add: inference_miss)
  from pref have ch: "choose_endpoint cfg ev md 0 [] st = Inr (Some e, st)"
    by (rule choose_endpoint_preferred)
  show ?thesis
  proof (cases "loop_body cfg ev ?ck data md 0 [] st")
    case (Inl err)
    with loop pos show ?thesis by (subst (asm) inference_loop.simps) simp
  next
    case (Inr x)
    obtain r tr1 s1 where x: "x = (r, tr1, s1)" by (cases x)
    from Inr x have body: "loop_body cfg ev ?ck data md 0 [] st = Inr (r, tr1, s1)" by simp
    from body ch ty have first: "\<exists>rest. trace s1 = trace st @ Request (name e) # rest"
    proof (cases rule: loop_body_cases)
      case (success e1 s0 resp)
      with ch have "e1 = e" "s0 = st" by simp_all
      with attempt_success(6)[OF success(2)] show ?thesis by simp
    next
      case (failure e1 s0 s2)
      with ch have "e1 = e" "s0 = st" by simp_all
      with attempt_failure_trace(1)[OF failure(2)] ty failure(5) show ?thesis by auto
    qed simp
    show ?thesis
    proof (cases r)
      case (Some o1)
      with loop pos body have "st' = s1" by (subst (asm) inference_loop.simps) simp
      with first show ?thesis by simp
    next
      case None
      with loop pos body have "inference_loop cfg ev ?ck data md (Suc 0) tr1 s1 = Inr (out, st')"
        by (subst (asm) inference_loop.simps) simp
      from inference_loop_trace_grows[OF this] first show ?thesis by auto
    qed
  qed
qed

text \<open>
  Claim C2, as the code has it. On the first attempt an endpoint named by
  \<^verbatim>\<open>metadata["endpoint_pref"]\<close> is used directly, whatever its circuit state (nothing is
  excluded yet), and the first request of the call goes to it. On every other attempt, and
  when no known endpoint is preferred, the endpoint is the one the Selector returns, which
  is never open and never excluded.
\<close>

theorem preferred_endpoint_used_directly:
  "(preferred_endpoint md (endpoints cfg) = Some e \<longrightarrow>
      choose_endpoint cfg ev md 0 tr st = Inr (Some e, st))
   \<and> (preferred_endpoint md (endpoints cfg) = Some e
        \<and> (etype e = ''http'' \<or> etype e = ''websocket'')
        \<and> cache st (get_cache_key ev model_type data md) = None
        \<and> 0 < max_attempts (retry_config cfg)
        \<and> inference cfg ev model_type data md st = Inr (out, st') \<longrightarrow>
          (\<exists>rest. trace st' = trace st @ Request (name e) # rest))
   \<and> (a \<noteq> 0 \<or> preferred_endpoint md (endpoints cfg) = None \<longrightarrow>
        choose_endpoint cfg ev md a tr st = select_endpoint cfg ev tr st)
   \<and> (\<forall>e1 st1. select_endpoint cfg ev tr st = Inr (Some e1, st1) \<longrightarrow>
        e1 \<in> set (endpoints cfg) \<and> circuit_states st (name e1) \<noteq> Some Open
        \<and> name e1 \<notin> set tr)"
  using choose_endpoint_preferred[of md cfg e ev tr st]
    inference_preferred_first[of cfg ev model_type data md st out st' e]
    choose_endpoint_select[of a md cfg ev tr st]
    select_endpoint_sound[of cfg ev tr st]
  by blast

lemma st_tripped_trace:
  "trace st_tripped = [Request ''a'', Failed ''a'', Sleep 2, Request ''a'', Failed ''a'', Sleep 2]"
  by (simp add: st_tripped_def st_failed_once_def example_defs model_defs)

lemma st_pref_open_run:
  "inference cfg_one env_down ''stt'' ''audio'' md_pref_a st_tripped = Inr (Unavailable, st_pref_open)"
  by (simp add: st_pref_open_def md_pref_a_def st_tripped_def st_failed_once_def
        example_defs model_defs)

lemma st_pref_open_trace:
  "trace st_pref_open = trace st_tripped @ [Request ''a'', Failed ''a'', Sleep 2]"
  by (simp add: st_pref_open_def md_pref_a_def st_tripped_def st_failed_once_def
        example_defs model_defs)

lemma preferred_a: "preferred_endpoint md_pref_a (endpoints cfg_one) = Some ep_a"
  by (simp add: preferred_endpoint_def md_pref_a_def cfg_one_def ep_a_def)

lemma select_failed_once:
  "select_endpoint cfg_one env_down [] st_failed_once
     = Inr (Some ep_a, st_failed_once\<lparr>rng_draws := 2\<rparr>)"
  by (simp add: st_failed_once_def example_defs model_defs)

theorem preferred_endpoint_used_directly_witness:
  "preferred_endpoint md_pref_a (endpoints cfg_one) = Some ep_a
   \<and> circuit_states st_tripped ''a'' = Some Open
   \<and> choose_endpoint cfg_one env_down md_pref_a 0 [] st_tripped = Inr (Some ep_a, st_tripped)
   \<and> inference cfg_one env_down ''stt'' ''audio'' md_pref_a st_tripped
       = Inr (Unavailable, st_pref_open)
   \<and> (\<exists>rest. trace st_pref_open = trace st_tripped @ Request (name ep_a) # rest)
   \<and> choose_endpoint cfg_one env_down md_pref_a 1 [] st_failed_once
       = select_endpoint cfg_one env_down [] st_failed_once
   \<and> select_endpoint cfg_one env_down [] st_failed_once
       = Inr (Some ep_a, st_failed_once\<lparr>rng_draws := 2\<rparr>)
   \<and> circuit_states st_failed_once (name ep_a) \<noteq> Some Open
   \<and> name ep_a \<notin> set []"
proof -
  have ty: "etype ep_a = ''http''" by (simp add: ep_a_def)
  have miss: "cache st_tripped (get_cache_key env_down ''stt'' ''audio'' md_pref_a) = None"
    by (simp add: st_tripped_fields)
  have pos: "0 < max_attempts (retry_config cfg_one)" by (simp add: cfg_one_def)
  note T1 = preferred_endpoint_used_directly
    [where md = md_pref_a and cfg = cfg_one and e = ep_a and ev = env_down and tr = "[]"
       and st = st_tripped and model_type = "''stt''" and data = "''audio''"
       and out = Unavailable and st' = st_pref_open and a = 1]
  note T2 = preferred_endpoint_used_directly
    [where md = md_pref_a and cfg = cfg_one and e = ep_a and ev = env_down and tr = "[]"
       and st = st_failed_once and model_type = "''stt''" and data = "''audio''"
       and out = Unavailable and st' = st_pref_open and a = 1]
  from T1 preferred_a ty miss pos st_pref_open_run
  have A: "choose_endpoint cfg_one env_down md_pref_a 0 [] st_tripped = Inr (Some ep_a, st_tripped)"
    and B: "\<exists>rest. trace st_pref_open = trace st_tripped @ Request (name ep_a) # rest"
    by blast+
  from T2 select_failed_once
  have C: "choose_endpoint cfg_one env_down md_pref_a 1 [] st_failed_once
       = select_endpoint cfg_one env_down [] st_failed_once"
    and D: "circuit_states st_failed_once (name ep_a) \<noteq> Some Open \<and> name ep_a \<notin> set []"
    by auto
  from A B C D preferred_a st_pref_open_run select_failed_once st_tripped_fields(1)
  show ?thesis by simp
qed

text \<open>
  Claim C2 as stated fails: the circuit of \<open>a\<close> is open, the call prefers \<open>a\<close>, and the
  transport is asked to send the request to \<open>a\<close>.
\<close>

theorem preferred_open_contacted_counterexample:
  "circuit_states st_tripped ''a'' = Some Open
   \<and> preferred_endpoint md_pref_a (endpoints cfg_one) = Some ep_a
   \<and> inference cfg_one env_down ''stt'' ''audio'' md_pref_a st_tripped
       = Inr (Unavailable, st_pref_open)
   \<and> trace st_pref_open = trace st_tripped @ [Request ''a'', Failed ''a'', Sleep 2]"
  by (simp add: st_tripped_fields preferred_a st_pref_open_run st_pref_open_trace)

section \<open>The response cache\<close>

lemma loop_body_cache:
  assumes "loop_body cfg ev ck data md a tr st = Inr (r, tr1, st1)"
  shows "(\<exists>resp ts. r = Some (Success resp)
            \<and> cache st1 = (cache st)(ck \<mapsto> \<lparr>timestamp = ts, response = resp\<rparr>))
         \<or> ((\<forall>resp. r \<noteq> Some (Success resp)) \<and> cache st1 = cache st)"
  using assms
proof (cases rule: loop_body_cases)
  case unavailable
  then show ?thesis by (simp add: choose_endpoint_trace(3))
next
  case (success e s0 resp)
  from attempt_success(4)[OF success(2)] choose_endpoint_trace(3)[OF success(1)] success(3)
  show ?thesis by auto
next
  case (failure e s0 s2)
  from attempt_failure_trace(3)[OF failure(2)] choose_endpoint_trace(3)[OF failure(1)] failure(3,5)
  show ?thesis by auto
qed

lemma inference_loop_cache:
  assumes "inference_loop cfg ev ck data md 0 [] st = Inr (out, st')"
  shows "(\<exists>resp ts. out = Success resp
            \<and> cache st' = (cache st)(ck \<mapsto> \<lparr>timestamp = ts, response = resp\<rparr>))
         \<or> ((\<forall>resp. out \<noteq> Success resp) \<and> (\<forall>resp. out \<noteq> CacheHit resp) \<and> cache st' = cache st)"
proof (rule inference_loop_rule[where I = "\<lambda>a tr s. cache s = cache st", OF assms])
  show "cache st = cache st" by simp
next
  fix a tr s tr1 s1
  assume "cache s = cache st" and "loop_body cfg ev ck data md a tr s = Inr (None, tr1, s1)"
  with loop_body_cache[of cfg ev ck data md a tr s None tr1 s1]
  show "cache s1 = cache st" by simp
next
  fix a tr s out1 tr1 s1
  assume c: "cache s = cache st"
    and body: "loop_body cfg ev ck data md a tr s = Inr (Some out1, tr1, s1)"
  from loop_body_trace[OF body] have "\<forall>resp. out1 \<noteq> CacheHit resp" by auto
  with loop_body_cache[OF body] c
  show "(\<exists>resp ts. out1 = Success resp
            \<and> cache s1 = (cache st)(ck \<mapsto> \<lparr>timestamp = ts, response = resp\<rparr>))
         \<or> ((\<forall>resp. out1 \<noteq> Success resp) \<and> (\<forall>resp. out1 \<noteq> CacheHit resp) \<and> cache s1 = cache st)"
    by auto
next
  fix s :: router
  assume "cache s = cache st"
  then show "(\<exists>resp ts. RetriesExhausted = Success resp
            \<and> cache s = (cache st)(ck \<mapsto> \<lparr>timestamp = ts, response = resp\<rparr>))
         \<or> ((\<forall>resp. RetriesExhausted \<noteq> Success resp) \<and> (\<forall>resp. RetriesExhausted \<noteq> CacheHit resp)
             \<and> cache s = cache st)"
    by simp
qed

lemma inference_cache_success:
  assumes "inference cfg ev model_type data md st = Inr (Success resp, st')"
  shows "cache st (get_cache_key ev model_type data md) = None"
    and "\<exists>ts. cache st' = (cache st)(get_cache_key ev model_type data md \<mapsto>
                  \<lparr>timestamp = ts, response = resp\<rparr>)"
proof -
  from assms show miss: "cache st (get_cache_key ev model_type data md) = None"
    by (auto dest: inference_not_hit)
  with assms inference_loop_cache[of cfg ev "get_cache_key ev model_type data md" data md st
      "Success resp" st']
  show "\<exists>ts. cache st' = (cache st)(get_cache_key ev model_type data md \<mapsto>
                  \<lparr>timestamp = ts, response = resp\<rparr>)"
    by (simp add: inference_miss)
qed

lemma inference_cache_other:
  assumes "inference cfg ev model_type data md st = Inr (out, st')"
    and "\<forall>resp. out \<noteq> Success resp"
  shows "cache st' = cache st"
proof (cases "cache st (get_cache_key ev model_type data md)")
  case (Some entry)
  with assms(1) show ?thesis by (simp add: inference_hit)
next
  case None
  with assms inference_loop_cache[of cfg ev "get_cache_key ev model_type data md" data md st out st']
  show ?thesis by (auto simp: inference_miss)
qed

lemma inference_cache_persists:
  assumes "inference cfg ev model_type data md st = Inr (out, st')"
    and "cache st k = Some entry"
  shows "cache st' k = Some entry"
proof (cases "\<exists>resp. out = Success resp")
  case True
  then obtain resp where "out = Success resp" by blast
  with assms(1) inference_cache_success[of cfg ev model_type data md st resp st'] assms(2)
  show ?thesis by auto
next
  case False
  with inference_cache_other[OF assms(1)] assms(2) show ?thesis by simp
qed

lemma later_cache_persists:
  "later cfg st st1 \<Longrightarrow> cache st k = Some entry \<Longrightarrow> cache st1 k = Some entry"
proof (induction rule: later.induct)
  case later_refl
  then show ?case by simp
next
  case (later_inference st1 ev model_type data md out st2)
  then show ?case by (auto dest: inference_cache_persists)
next
  case (later_health st1 ev snap st2)
  then show ?case by (auto dest: health_check_frame(1))
qed

text \<open>
  Claim C7. When the fingerprint of a call is in the cache, \<^verbatim>\<open>inference\<close> returns the
  cached response and leaves the router, and with it the trace of transport requests, as
  it was, whatever the time stamp of the entry. After a successful call, every later call
  with the same arguments gets the response of that call from the cache. A successful call
  writes exactly the entry of its fingerprint; a call that returns an error result writes
  nothing.
\<close>

theorem cached_response_returned:
  "(cache st (get_cache_key ev model_type data md) = Some entry \<longrightarrow>
      inference cfg ev model_type data md st = Inr (CacheHit (response entry), st))
   \<and> (inference cfg ev model_type data md st = Inr (Success resp, sta) \<and> later cfg sta stb \<longrightarrow>
        inference cfg ev model_type data md stb = Inr (CacheHit resp, stb)
        \<and> result_dict (CacheHit resp) = resp)
   \<and> (inference cfg ev model_type data md st = Inr (Success resp, sta) \<longrightarrow>
        cache st (get_cache_key ev model_type data md) = None
        \<and> (\<exists>ts. cache sta = (cache st)(get_cache_key ev model_type data md \<mapsto>
                    \<lparr>timestamp = ts, response = resp\<rparr>)))
   \<and> (inference cfg ev model_type data md st = Inr (out, sta) \<and> (\<forall>r. out \<noteq> Success r) \<longrightarrow>
        cache sta = cache st)"
proof (intro conjI impI)
  assume "cache st (get_cache_key ev model_type data md) = Some entry"
  then show "inference cfg ev model_type data md st = Inr (CacheHit (response entry), st)"
    by (rule inference_hit)
next
  assume h: "inference cfg ev model_type data md st = Inr (Success resp, sta) \<and> later cfg sta stb"
  then obtain ts where "cache sta (get_cache_key ev model_type data md)
      = Some \<lparr>timestamp = ts, response = resp\<rparr>"
    using inference_cache_success(2)[of cfg ev model_type data md st resp sta] by auto
  with h have "cache stb (get_cache_key ev model_type data md)
      = Some \<lparr>timestamp = ts, response = resp\<rparr>"
    by (auto dest: later_cache_persists)
  from inference_hit[OF this]
  show "inference cfg ev model_type data md stb = Inr (CacheHit resp, stb)" by simp
next
  show "result_dict (CacheHit resp) = resp" by simp
next
  assume "inference cfg ev model_type data md st = Inr (Success resp, sta)"
  then show "cache st (get_cache_key ev model_type data md) = None"
    and "\<exists>ts. cache sta = (cache st)(get_cache_key ev model_type data md \<mapsto>
                    \<lparr>timestamp = ts, response = resp\<rparr>)"
    by (rule inference_cache_success)+
next
  assume "inference cfg ev model_type data md st = Inr (out, sta) \<and> (\<forall>r. out \<noteq> Success r)"
  then show "cache sta = cache st" by (auto dest: inference_cache_other)
qed

lemma st_second_run:
  "inference cfg_one env_up ''tts'' ''text'' None st_recovered
     = Inr (Success [(''result'', ''ok'')], st_second)"
  by (simp add: st_second_def st_recovered_def st_failed_once_def example_defs model_defs)

lemma st_second_cache:
  "cache st_second (get_cache_key env_up ''stt'' ''audio'' None)
     = Some \<lparr>timestamp = 4, response = [(''result'', ''ok'')]\<rparr>"
  by (simp add: st_second_def st_recovered_def st_failed_once_def example_defs model_defs)

theorem cached_response_returned_witness:
  "inference cfg_one env_up ''stt'' ''audio'' None st_failed_once
     = Inr (Success [(''result'', ''ok'')], st_recovered)
   \<and> later cfg_one st_recovered st_second
   \<and> cache st_second (get_cache_key env_up ''stt'' ''audio'' None)
       = Some \<lparr>timestamp = 4, response = [(''result'', ''ok'')]\<rparr>
   \<and> inference cfg_one env_up ''stt'' ''audio'' None st_second
       = Inr (CacheHit [(''result'', ''ok'')], st_second)
   \<and> cache st_failed_once (get_cache_key env_up ''stt'' ''audio'' None) = None
   \<and> inference cfg_one env_down ''stt'' ''audio'' None (init cfg_one)
       = Inr (Unavailable, st_failed_once)
   \<and> cache st_failed_once = cache (init cfg_one)"
proof -
  have lat: "later cfg_one st_recovered st_second"
    using later_inference [OF later_refl st_second_run] .
  note T1 = cached_response_returned
    [where st = st_failed_once and ev = env_up and model_type = "''stt''" and data = "''audio''"
       and md = None and cfg = cfg_one and resp = "[(''result'', ''ok'')]"
       and sta = st_recovered and stb = st_second and out = "Success [(''result'', ''ok'')]"]
  note T2 = cached_response_returned
    [where st = st_second and ev = env_up and model_type = "''stt''" and data = "''audio''"
       and md = None and cfg = cfg_one
       and entry = "\<lparr>timestamp = 4, response = [(''result'', ''ok'')]\<rparr>"]
  note T3 = cached_response_returned
    [where st = "init cfg_one" and ev = env_down and model_type = "''stt''" and data = "''audio''"
       and md = None and cfg = cfg_one and sta = st_failed_once and out = Unavailable]
  from T1 st_recovered_run lat
  have A: "inference cfg_one env_up ''stt'' ''audio'' None st_second
       = Inr (CacheHit [(''result'', ''ok'')], st_second)"
    and B: "cache st_failed_once (get_cache_key env_up ''stt'' ''audio'' None) = None"
    by blast+
  from T2 st_second_cache
  have A2: "inference cfg_one env_up ''stt'' ''audio'' None st_second
       = Inr (CacheHit (response \<lparr>timestamp = 4, response = [(''result'', ''ok'')]\<rparr>), st_second)"
    by blast
  from T3 st_failed_once_run have C: "cache st_failed_once = cache (init cfg_one)"
    by simp
  from A A2 B C lat st_recovered_run st_second_cache st_failed_once_run
  show ?thesis by simp
qed

section \<open>No operation raises\<close>

lemma active_endpoints_filter:
  "\<forall>e \<in> set es. cs (name e) \<noteq> None \<Longrightarrow>
     active_endpoints cs ex es = Inr (filter (\<lambda>e. cs (name e) \<noteq> Some Open \<and> name e \<notin> set ex) es)"
  by (induction es) auto

lemma active_endpoints_candidates:
  "keys_ok cfg st \<Longrightarrow>
     active_endpoints (circuit_states st) ex (endpoints cfg) = Inr (candidates cfg ex st)"
  by (simp add: keys_ok_def candidates_def active_endpoints_filter)



lemma keys_ok_same:
  "keys_ok cfg st \<Longrightarrow> (\<And>k. circuit_states st1 k = None \<longleftrightarrow> circuit_states st k = None)
     \<Longrightarrow> (\<And>k. metrics st1 k = None \<longleftrightarrow> metrics st k = None) \<Longrightarrow> keys_ok cfg st1"
  by (simp add: keys_ok_def)

lemma choose_endpoint_keys_ok:
  "choose_endpoint cfg ev md a tr st = Inr (r, st1) \<Longrightarrow> keys_ok cfg st \<Longrightarrow> keys_ok cfg st1"
  by (drule choose_endpoint_state) (auto simp: keys_ok_def)



lemma attempt_keys_ok:
  assumes "attempt cfg ev e ck data md st = Inr (r, st')" and "keys_ok cfg st"
  shows "keys_ok cfg st'"
proof (cases r)
  case (Some resp)
  with assms(1) attempt_success(1,5,11)[of cfg ev e ck data md st resp st'] assms(2)
  show ?thesis by (auto simp: keys_ok_def)
next
  case None
  with assms(1) attempt_failure[of cfg ev e ck data md st st'] obtain m st4 where
    h: "handle_failure cfg ev (name e) st4 = Inr st'" and
    m: "metrics st (name e) = Some m" "metrics st4 = (metrics st)(name e \<mapsto>
        bump_metrics (time_at ev (Suc (clock_reads st)) - time_at ev (clock_reads st)) False m)"
    and c: "circuit_states st4 = circuit_states st"
    by blast
  have "keys_ok cfg st4" using assms(2) m c by (auto simp: keys_ok_def)
  with handle_failure_fields(2)[OF h] handle_failure_fields(8)[OF h]
  show ?thesis by (auto simp: keys_ok_def)
qed

lemma loop_body_keys_ok:
  assumes "loop_body cfg ev ck data md a tr st = Inr (r, tr1, st1)" and "keys_ok cfg st"
  shows "keys_ok cfg st1"
  using assms(1)
proof (cases rule: loop_body_cases)
  case unavailable
  with assms(2) show ?thesis by (auto dest: choose_endpoint_keys_ok)
next
  case (success e s0 resp)
  with assms(2) show ?thesis by (auto dest: choose_endpoint_keys_ok attempt_keys_ok)
next
  case (failure e s0 s2)
  with assms(2) have "keys_ok cfg s2" by (auto dest: choose_endpoint_keys_ok attempt_keys_ok)
  with failure(5) show ?thesis by (auto simp: keys_ok_def)
qed






lemma inference_keys_ok:
  assumes "inference cfg ev model_type data md st = Inr (out, st')" and "keys_ok cfg st"
  shows "keys_ok cfg st'"
proof (cases "cache st (get_cache_key ev model_type data md)")
  case (Some entry)
  with assms show ?thesis by (simp add: inference_hit)
next
  case None
  with assms(1) have "inference_loop cfg ev (get_cache_key ev model_type data md) data md 0 [] st
      = Inr (out, st')"
    by (simp add: inference_miss)
  from inference_loop_invariant[where P = "keys_ok cfg", OF this assms(2)] loop_body_keys_ok
  show ?thesis by blast
qed

lemma map_of_names:
  fixes es :: "EndpointConfig list"
  shows "e \<in> set es \<Longrightarrow> map_of (map (\<lambda>e. (name e, z)) es) (name e) \<noteq> None"
  by (induction es) auto

lemma keys_ok_init: "keys_ok cfg (init cfg)"
  by (simp add: keys_ok_def init_def map_of_names)

lemma reachable_keys_ok: "reachable cfg st \<Longrightarrow> keys_ok cfg st"
proof (induction rule: reachable.induct)
  case reach_init
  show ?case by (rule keys_ok_init)
next
  case (reach_record st n latency success st1)
  then show ?case by (auto simp: update_metrics_def keys_ok_def split: option.splits)
next
  case (reach_inference st ev model_type data md out st1)
  then show ?case by (auto dest: inference_keys_ok)
next
  case (reach_health st ev snap st1)
  from health_check_frame(2,4)[OF reach_health(2)] reach_health(3)
  show ?case by (simp add: keys_ok_def)
qed

section \<open>Total unavailability\<close>





section \<open>A single endpoint that always fails\<close>

lemma rng_ok_uniform:
  "rng_ok ev \<Longrightarrow> a \<le> b \<Longrightarrow> a \<le> random_uniform ev k a b \<and> random_uniform ev k a b \<le> b"
  unfolding rng_ok_def by blast

lemma rng_ok_choice: "rng_ok ev \<Longrightarrow> 0 < n \<Longrightarrow> random_choice ev k n < n"
  unfolding rng_ok_def by blast





lemma init_fields:
  "e \<in> set (endpoints cfg) \<Longrightarrow> circuit_states (init cfg) (name e) = Some Closed"
  "failure_counts (init cfg) n = 0"
  "cache (init cfg) = Map.empty"
  "trace (init cfg) = []"
  "requests (init cfg) = 0"
proof -
  have "map_of (map (\<lambda>e. (name e, z)) es) (name e) = Some z"
    if "e \<in> set es" for es :: "EndpointConfig list" and z :: circuit
    using that by (induction es) auto
  then show "e \<in> set (endpoints cfg) \<Longrightarrow> circuit_states (init cfg) (name e) = Some Closed"
    by (simp add: init_def)
qed (simp_all add: init_def)


lemma inference_trace:
  assumes "inference cfg ev model_type data md st = Inr (out, st')"
  shows "\<exists>new. trace st' = trace st @ new
           \<and> sleeps_of new = map (\<lambda>i. backoff_factor (retry_config cfg) ^ i)
                 [1 ..< Suc (min (failures_of new) (nat (max_attempts (retry_config cfg) - 1)))]
           \<and> (out = RetriesExhausted \<longrightarrow>
                 int (failures_of new) = max 0 (max_attempts (retry_config cfg)))
           \<and> (out = Unavailable \<or> (\<exists>r. out = Success r) \<longrightarrow>
                 int (failures_of new) < max_attempts (retry_config cfg))
           \<and> ((\<exists>r. out = CacheHit r) \<longrightarrow> new = [])"
proof (cases "cache st (get_cache_key ev model_type data md)")
  case (Some entry)
  with assms have "out = CacheHit (response entry)" "st' = st" by (simp_all add: inference_hit)
  then show ?thesis by simp
next
  case None
  with assms have run: "inference_loop cfg ev (get_cache_key ev model_type data md) data md 0 [] st
      = Inr (out, st')" by (simp add: inference_miss)
  from inference_loop_cache[OF run] have "\<forall>r. out \<noteq> CacheHit r" by auto
  with inference_loop_trace[OF run] show ?thesis by auto
qed


lemma rng_ok_scripted: "0 \<le> d \<Longrightarrow> d \<le> 1 \<Longrightarrow> rng_ok (scripted outcomes d h)"
proof -
  assume d: "0 \<le> d" "d \<le> 1"
  have "a \<le> a + (b - a) * d \<and> a + (b - a) * d \<le> b" if "a \<le> b" for a b :: real
  proof
    from that d show "a \<le> a + (b - a) * d" by simp
    from that d have "(b - a) * d \<le> (b - a) * 1" by (intro mult_left_mono) simp_all
    then show "a + (b - a) * d \<le> b" by simp
  qed
  then show ?thesis by (simp add: rng_ok_def scripted_def)
qed

lemma rng_ok_env_down: "rng_ok env_down"
  by (simp add: env_down_def rng_ok_scripted)

lemma st_tripped_run:
  "inference cfg_one env_down ''stt'' ''audio'' None st_failed_once = Inr (Unavailable, st_tripped)"
  by (simp add: st_tripped_def st_failed_once_def example_defs model_defs)

lemma st_tripped_reachable: "reachable cfg_one st_tripped"
  using reach_inference [OF st_failed_once_reachable st_tripped_run] .


lemma st_exhausted_trace: "trace st_exhausted = [Request ''a'', Failed ''a'']"
  by (simp add: st_exhausted_def example_defs model_defs)













section \<open>Back-off\<close>

lemma loop_body_requests:
  assumes "loop_body cfg ev ck data md a tr st = Inr (r, tr1, st1)" and "types_ok cfg"
  shows "requests st1 = (if r = Some Unavailable then requests st else Suc (requests st))"
  using assms(1)
proof (cases rule: loop_body_cases)
  case unavailable
  then show ?thesis by (simp add: choose_endpoint_trace(2))
next
  case (success e s0 resp)
  from attempt_success(7)[OF success(2)] choose_endpoint_trace(2)[OF success(1)] success(3)
  show ?thesis by simp
next
  case (failure e s0 s2)
  from choose_endpoint_mem[OF failure(1)] assms(2)
  have "etype e = ''http'' \<or> etype e = ''websocket''" by (simp add: types_ok_def)
  with attempt_failure_trace(2)[OF failure(2)] choose_endpoint_trace(2)[OF failure(1)] failure(3,5)
  show ?thesis by auto
qed

text \<open>
  The scenario of the specification: the first attempt fails and the second succeeds.
\<close>

lemma retry_once_then_success:
  assumes mx: "max_attempts (retry_config cfg) = 3" and ty: "types_ok cfg"
    and miss: "cache st (get_cache_key ev model_type data md) = None"
    and first: "loop_body cfg ev (get_cache_key ev model_type data md) data md 0 [] st
                  = Inr (None, tr1, st1)"
    and second: "loop_body cfg ev (get_cache_key ev model_type data md) data md (Suc 0) tr1 st1
                  = Inr (Some (Success resp), tr2, st2)"
  shows "inference cfg ev model_type data md st = Inr (Success resp, st2)"
    and "requests st2 = requests st + 2"
    and "\<exists>e1 \<in> set (endpoints cfg). \<exists>e2 \<in> set (endpoints cfg).
           trace st2 = trace st @ [Request (name e1), Failed (name e1),
                                   Sleep (backoff_factor (retry_config cfg) ^ 1),
                                   Request (name e2)]"
proof -
  let ?ck = "get_cache_key ev model_type data md"
  from second mx have "inference_loop cfg ev ?ck data md (Suc 0) tr1 st1 = Inr (Success resp, st2)"
    by (subst inference_loop.simps) simp
  with first mx have "inference_loop cfg ev ?ck data md 0 [] st = Inr (Success resp, st2)"
    by (subst inference_loop.simps) simp
  with miss show "inference cfg ev model_type data md st = Inr (Success resp, st2)"
    by (simp add: inference_miss)
  from loop_body_requests[OF first ty] loop_body_requests[OF second ty]
  show "requests st2 = requests st + 2" by simp
  from loop_body_trace[OF first] obtain e1 where e1: "e1 \<in> set (endpoints cfg)"
    and t1: "trace st1 = trace st
               @ (if etype e1 = ''http'' \<or> etype e1 = ''websocket'' then [Request (name e1)] else [])
               @ [Failed (name e1)]
               @ (if int (Suc 0) < max_attempts (retry_config cfg)
                  then [Sleep (backoff_factor (retry_config cfg) ^ Suc 0)] else [])"
    by auto
  from loop_body_trace[OF second] obtain e2 where e2: "e2 \<in> set (endpoints cfg)"
    and t2: "trace st2 = trace st1 @ [Request (name e2)]"
    by auto
  from e1 ty have "etype e1 = ''http'' \<or> etype e1 = ''websocket''" by (simp add: types_ok_def)
  with t1 t2 mx have "trace st2 = trace st @ [Request (name e1), Failed (name e1),
                                   Sleep (backoff_factor (retry_config cfg) ^ 1),
                                   Request (name e2)]"
    by auto
  with e1 e2 show "\<exists>e1 \<in> set (endpoints cfg). \<exists>e2 \<in> set (endpoints cfg).
           trace st2 = trace st @ [Request (name e1), Failed (name e1),
                                   Sleep (backoff_factor (retry_config cfg) ^ 1),
                                   Request (name e2)]"
    by blast
qed

text \<open>
  Claim C9. An iteration of the loop whose attempt failed, with the attempt counter at
  \<open>a\<close> before it, ends with the failure and then, when \<open>a + 1 < max_attempts\<close>, a sleep of
  \<open>backoff_factor ^ (a + 1)\<close>; so the sleeps of a call are the powers of the back-off
  factor from the first on, one after each failed attempt that leaves attempts. With
  \<open>max_attempts = 3\<close>, when the first attempt fails and the second succeeds,
  \<^verbatim>\<open>inference\<close> returns the response of the second, the transport was asked exactly
  twice, and the one sleep, of \<open>backoff_factor ^ 1\<close>, lies between the two requests.
\<close>

theorem backoff_between_attempts:
  "(loop_body cfg ev ck data md a tr st = Inr (None, tra, sta) \<longrightarrow>
      (\<exists>e \<in> set (endpoints cfg).
         trace sta = trace st
           @ (if etype e = ''http'' \<or> etype e = ''websocket'' then [Request (name e)] else [])
           @ [Failed (name e)]
           @ (if int (Suc a) < max_attempts (retry_config cfg)
              then [Sleep (backoff_factor (retry_config cfg) ^ Suc a)] else [])))
   \<and> (inference cfg ev model_type data md st = Inr (out, st') \<longrightarrow>
        (\<exists>new. trace st' = trace st @ new
           \<and> sleeps_of new = map (\<lambda>i. backoff_factor (retry_config cfg) ^ i)
                 [1 ..< Suc (min (failures_of new) (nat (max_attempts (retry_config cfg) - 1)))]))
   \<and> (max_attempts (retry_config cfg) = 3 \<and> types_ok cfg
        \<and> cache st (get_cache_key ev model_type data md) = None
        \<and> loop_body cfg ev (get_cache_key ev model_type data md) data md 0 [] st
             = Inr (None, tra, sta)
        \<and> loop_body cfg ev (get_cache_key ev model_type data md) data md (Suc 0) tra sta
             = Inr (Some (Success resp), trb, stb) \<longrightarrow>
          inference cfg ev model_type data md st = Inr (Success resp, stb)
          \<and> result_dict (Success resp) = resp
          \<and> requests stb = requests st + 2
          \<and> (\<exists>e1 \<in> set (endpoints cfg). \<exists>e2 \<in> set (endpoints cfg).
                trace stb = trace st @ [Request (name e1), Failed (name e1),
                                        Sleep (backoff_factor (retry_config cfg) ^ 1),
                                        Request (name e2)]))"
proof (intro conjI impI)
  assume "loop_body cfg ev ck data md a tr st = Inr (None, tra, sta)"
  from loop_body_trace[OF this]
  show "\<exists>e \<in> set (endpoints cfg).
         trace sta = trace st
           @ (if etype e = ''http'' \<or> etype e = ''websocket'' then [Request (name e)] else [])
           @ [Failed (name e)]
           @ (if int (Suc a) < max_attempts (retry_config cfg)
              then [Sleep (backoff_factor (retry_config cfg) ^ Suc a)] else [])"
    by auto
next
  assume "inference cfg ev model_type data md st = Inr (out, st')"
  from inference_trace[OF this]
  show "\<exists>new. trace st' = trace st @ new
           \<and> sleeps_of new = map (\<lambda>i. backoff_factor (retry_config cfg) ^ i)
                 [1 ..< Suc (min (failures_of new) (nat (max_attempts (retry_config cfg) - 1)))]"
    by blast
next
  assume h: "max_attempts (retry_config cfg) = 3 \<and> types_ok cfg
        \<and> cache st (get_cache_key ev model_type data md) = None
        \<and> loop_body cfg ev (get_cache_key ev model_type data md) data md 0 [] st
             = Inr (None, tra, sta)
        \<and> loop_body cfg ev (get_cache_key ev model_type data md) data md (Suc 0) tra sta
             = Inr (Some (Success resp), trb, stb)"
  note R = retry_once_then_success[of cfg st ev model_type data md tra sta resp trb stb]
  from h R(1) show "inference cfg ev model_type data md st = Inr (Success resp, stb)" by blast
  show "result_dict (Success resp) = resp" by simp
  from h R(2) show "requests stb = requests st + 2" by blast
  from h R(3) show "\<exists>e1 \<in> set (endpoints cfg). \<exists>e2 \<in> set (endpoints cfg).
                trace stb = trace st @ [Request (name e1), Failed (name e1),
                                        Sleep (backoff_factor (retry_config cfg) ^ 1),
                                        Request (name e2)]"
    by blast
qed

lemma st_retry_first:
  "loop_body cfg_two env_flaky (get_cache_key env_flaky ''stt'' ''audio'' None) ''audio'' None 0 []
     (init cfg_two) = Inr (None, [''b''], st_retry)"
  by (simp add: st_retry_def example_defs model_defs)

lemma st_retry_second:
  "loop_body cfg_two env_flaky (get_cache_key env_flaky ''stt'' ''audio'' None) ''audio'' None
     (Suc 0) [''b''] st_retry = Inr (Some (Success [(''result'', ''ok'')]), [''b'', ''a''], st_retried)"
  by (simp add: st_retry_def st_retried_def example_defs model_defs)

lemma st_retried_trace:
  "trace st_retried = [Request ''b'', Failed ''b'', Sleep 2, Request ''a'']"
  "requests st_retried = 2"
  by (simp_all add: st_retried_def example_defs model_defs)

theorem backoff_between_attempts_witness:
  "max_attempts (retry_config cfg_two) = 3 \<and> types_ok cfg_two
   \<and> cache (init cfg_two) (get_cache_key env_flaky ''stt'' ''audio'' None) = None
   \<and> loop_body cfg_two env_flaky (get_cache_key env_flaky ''stt'' ''audio'' None) ''audio'' None
        0 [] (init cfg_two) = Inr (None, [''b''], st_retry)
   \<and> loop_body cfg_two env_flaky (get_cache_key env_flaky ''stt'' ''audio'' None) ''audio'' None
        (Suc 0) [''b''] st_retry
        = Inr (Some (Success [(''result'', ''ok'')]), [''b'', ''a''], st_retried)
   \<and> inference cfg_two env_flaky ''stt'' ''audio'' None (init cfg_two)
        = Inr (Success [(''result'', ''ok'')], st_retried)
   \<and> requests st_retried = requests (init cfg_two) + 2
   \<and> trace st_retried = [Request ''b'', Failed ''b'', Sleep (2 ^ 1), Request ''a'']
   \<and> sleeps_of (trace st_retried) = [2 ^ 1]"
proof -
  have c: "max_attempts (retry_config cfg_two) = 3" "types_ok cfg_two"
    "cache (init cfg_two) (get_cache_key env_flaky ''stt'' ''audio'' None) = None"
    by (simp_all add: cfg_two_def types_ok_def ep_a_def ep_b_def init_fields)
  note T = backoff_between_attempts
    [where cfg = cfg_two and ev = env_flaky and model_type = "''stt''" and data = "''audio''"
       and md = None and st = "init cfg_two" and tra = "[''b'']" and sta = st_retry
       and resp = "[(''result'', ''ok'')]" and trb = "[''b'', ''a'']" and stb = st_retried
       and ck = "get_cache_key env_flaky ''stt'' ''audio'' None" and a = 0 and tr = "[]"
       and out = "Success [(''result'', ''ok'')]" and st' = st_retried]
  from T c st_retry_first st_retry_second
  have A: "inference cfg_two env_flaky ''stt'' ''audio'' None (init cfg_two)
        = Inr (Success [(''result'', ''ok'')], st_retried)"
    and B: "requests st_retried = requests (init cfg_two) + 2"
    by blast+
  from A B c st_retry_first st_retry_second st_retried_trace show ?thesis by simp
qed

section \<open>The weighted choice\<close>

lemma walk_total:
  "es \<noteq> [] \<Longrightarrow> \<forall>e \<in> set es. 0 \<le> weight e \<Longrightarrow>
     sel \<le> real_of_int (cw + sum_list (map weight es)) \<Longrightarrow> \<exists>e. walk sel cw es = Some e"
proof (induction es arbitrary: cw)
  case Nil
  then show ?case by simp
next
  case (Cons x xs)
  show ?case
  proof (cases "sel \<le> real_of_int (cw + weight x)")
    case True
    then show ?thesis by (simp add: Let_def)
  next
    case False
    show ?thesis
    proof (cases "xs = []")
      case True
      with Cons.prems(3) False show ?thesis by simp
    next
      case nonempty: False
      from Cons.prems(3) have "sel \<le> real_of_int ((cw + weight x) + sum_list (map weight xs))"
        by (simp add: add.assoc)
      from Cons.IH[OF nonempty _ this] Cons.prems(2) False show ?thesis
        by (simp add: Let_def)
    qed
  qed
qed

text \<open>
  The walk returns a candidate of weight 0 only as the first candidate, and only when
  the draw does not exceed the weight accumulated before it.
\<close>

lemma walk_zero_weight:
  "walk sel cw es = Some e \<Longrightarrow> weight e = 0 \<Longrightarrow> sel \<le> real_of_int cw \<and> e = hd es"
proof (induction es arbitrary: cw)
  case Nil
  then show ?case by simp
next
  case (Cons x xs)
  show ?case
  proof (cases "sel \<le> real_of_int (cw + weight x)")
    case True
    with Cons.prems show ?thesis by (auto simp: Let_def)
  next
    case False
    with Cons.prems have "walk sel (cw + weight x) xs = Some e" by (simp add: Let_def)
    from Cons.IH[OF this Cons.prems(2)] False show ?thesis by simp
  qed
qed

lemma candidates_sound:
  "e \<in> set (candidates cfg ex st) \<longleftrightarrow>
     e \<in> set (endpoints cfg) \<and> circuit_states st (name e) \<noteq> Some Open \<and> name e \<notin> set ex"
  by (auto simp: candidates_def)

lemma select_endpoint_spec:
  assumes keys: "keys_ok cfg st" and rng: "rng_ok ev" and wts: "weights_ok cfg"
  shows "\<exists>r st1. select_endpoint cfg ev ex st = Inr (r, st1)
       \<and> (r = None \<longleftrightarrow> candidates cfg ex st = [])
       \<and> (\<forall>e. r = Some e \<longrightarrow> e \<in> set (candidates cfg ex st))
       \<and> (candidates cfg ex st \<noteq> [] \<and> sum_list (map weight (candidates cfg ex st)) = 0 \<longrightarrow>
             r = Some (candidates cfg ex st
                         ! random_choice ev (rng_draws st) (length (candidates cfg ex st))))
       \<and> (\<forall>e. r = Some e \<and> weight e = 0
                \<and> sum_list (map weight (candidates cfg ex st)) \<noteq> 0 \<longrightarrow>
             random_uniform ev (rng_draws st) 0
                 (real_of_int (sum_list (map weight (candidates cfg ex st)))) = 0
             \<and> e = hd (candidates cfg ex st))"
proof -
  let ?act = "candidates cfg ex st"
  let ?total = "sum_list (map weight ?act)"
  let ?u = "random_uniform ev (rng_draws st) 0 (real_of_int ?total)"
  let ?st1 = "st\<lparr>rng_draws := Suc (rng_draws st)\<rparr>"
  note act = active_endpoints_candidates[OF keys, of ex]
  have nonneg: "\<forall>e \<in> set ?act. 0 \<le> weight e"
    using wts by (auto simp: weights_ok_def candidates_def)
  then have total: "0 \<le> ?total" by (intro sum_list_nonneg) auto
  show ?thesis
  proof (cases "?act = []")
    case True
    with act show ?thesis by (simp add: select_endpoint_def)
  next
    case nonempty: False
    show ?thesis
    proof (cases "?total = 0")
      case True
      from rng_ok_choice[OF rng, of "length ?act" "rng_draws st"] nonempty
      have i: "random_choice ev (rng_draws st) (length ?act) < length ?act" by simp
      with act nonempty True
      have "select_endpoint cfg ev ex st
          = Inr (Some (?act ! random_choice ev (rng_draws st) (length ?act)), ?st1)"
        by (simp add: select_endpoint_def Let_def)
      with i nonempty True show ?thesis by simp
    next
      case False
      from rng_ok_uniform[OF rng, of 0 "real_of_int ?total" "rng_draws st"] total
      have u: "0 \<le> ?u" "?u \<le> real_of_int ?total" by simp_all
      from walk_total[OF nonempty nonneg, of ?u 0] u(2) obtain e0 where
        w: "walk ?u 0 ?act = Some e0" by auto
      from act nonempty False w
      have sel: "select_endpoint cfg ev ex st = Inr (Some e0, ?st1)"
        by (simp add: select_endpoint_def Let_def)
      have "?u = 0 \<and> e0 = hd ?act" if "weight e0 = 0"
        using walk_zero_weight[OF w that] u(1) by simp
      with sel walk_mem[OF w] nonempty False show ?thesis by simp
    qed
  qed
qed

text \<open>
  Claim C3, as the code has it. With non-negative weights and a random generator that
  keeps its contract, the Selector never raises; it returns none exactly when no endpoint
  is both not open and not excluded, and otherwise one of these candidates; when all
  candidate weights are 0 it returns the candidate that \<^verbatim>\<open>random.choice\<close> picks. On the
  weighted path a candidate of weight 0 is returned only when the draw is exactly 0 and it
  is the first candidate.
\<close>

theorem selector_returns_candidate:
  "keys_ok cfg st \<and> rng_ok ev \<and> weights_ok cfg \<longrightarrow>
     (\<exists>r st1. select_endpoint cfg ev ex st = Inr (r, st1)
       \<and> (r = None \<longleftrightarrow>
            \<not> (\<exists>e \<in> set (endpoints cfg). circuit_states st (name e) \<noteq> Some Open
                                            \<and> name e \<notin> set ex))
       \<and> (\<forall>e. r = Some e \<longrightarrow>
             e \<in> set (endpoints cfg) \<and> circuit_states st (name e) \<noteq> Some Open
             \<and> name e \<notin> set ex)
       \<and> (candidates cfg ex st \<noteq> [] \<and> sum_list (map weight (candidates cfg ex st)) = 0 \<longrightarrow>
             r = Some (candidates cfg ex st
                         ! random_choice ev (rng_draws st) (length (candidates cfg ex st))))
       \<and> (\<forall>e. r = Some e \<and> weight e = 0
                \<and> sum_list (map weight (candidates cfg ex st)) \<noteq> 0 \<longrightarrow>
             random_uniform ev (rng_draws st) 0
                 (real_of_int (sum_list (map weight (candidates cfg ex st)))) = 0
             \<and> e = hd (candidates cfg ex st)))"
proof
  assume h: "keys_ok cfg st \<and> rng_ok ev \<and> weights_ok cfg"
  have A: "(\<not> (\<exists>e \<in> set (endpoints cfg). circuit_states st (name e) \<noteq> Some Open
                                            \<and> name e \<notin> set ex))
      \<longleftrightarrow> candidates cfg ex st = []"
    by (auto simp: candidates_def filter_empty_conv)
  have B: "\<And>e. (e \<in> set (endpoints cfg) \<and> circuit_states st (name e) \<noteq> Some Open
             \<and> name e \<notin> set ex) \<longleftrightarrow> e \<in> set (candidates cfg ex st)"
    by (simp add: candidates_sound)
  from h have k: "keys_ok cfg st" and r: "rng_ok ev" and w: "weights_ok cfg" by blast+
  show "\<exists>r st1. select_endpoint cfg ev ex st = Inr (r, st1)
       \<and> (r = None \<longleftrightarrow>
            \<not> (\<exists>e \<in> set (endpoints cfg). circuit_states st (name e) \<noteq> Some Open
                                            \<and> name e \<notin> set ex))
       \<and> (\<forall>e. r = Some e \<longrightarrow>
             e \<in> set (endpoints cfg) \<and> circuit_states st (name e) \<noteq> Some Open
             \<and> name e \<notin> set ex)
       \<and> (candidates cfg ex st \<noteq> [] \<and> sum_list (map weight (candidates cfg ex st)) = 0 \<longrightarrow>
             r = Some (candidates cfg ex st
                         ! random_choice ev (rng_draws st) (length (candidates cfg ex st))))
       \<and> (\<forall>e. r = Some e \<and> weight e = 0
                \<and> sum_list (map weight (candidates cfg ex st)) \<noteq> 0 \<longrightarrow>
             random_uniform ev (rng_draws st) 0
                 (real_of_int (sum_list (map weight (candidates cfg ex st)))) = 0
             \<and> e = hd (candidates cfg ex st))"
    unfolding A B by (rule select_endpoint_spec[OF k r w])
qed

lemma rng_ok_env_low: "rng_ok env_low"
  by (simp add: env_low_def rng_ok_scripted)

lemma cfg_zero_facts:
  "keys_ok cfg_zero (init cfg_zero)" "weights_ok cfg_zero"
  "candidates cfg_zero [] (init cfg_zero) = [ep_z, ep_b]"
  "candidates cfg_zero [''b''] (init cfg_zero) = [ep_z]"
  "weight ep_z = 0" "weight ep_b = 10" "rng_draws (init cfg_zero) = 0"
proof -
  show "keys_ok cfg_zero (init cfg_zero)" by (rule keys_ok_init)
qed (simp_all add: weights_ok_def candidates_def cfg_zero_def ep_z_def ep_b_def init_def)

lemma select_zero_weighted:
  "select_endpoint cfg_zero env_low [] (init cfg_zero)
     = Inr (Some ep_z, (init cfg_zero)\<lparr>rng_draws := 1\<rparr>)"
  by (simp add: example_defs model_defs)

lemma select_zero_uniform:
  "select_endpoint cfg_zero env_low [''b''] (init cfg_zero)
     = Inr (Some ep_z, (init cfg_zero)\<lparr>rng_draws := 1\<rparr>)"
  by (simp add: example_defs model_defs)

lemma select_tripped_none: "select_endpoint cfg_one env_down [] st_tripped = Inr (None, st_tripped)"
  by (simp add: st_tripped_def st_failed_once_def example_defs model_defs)

theorem selector_returns_candidate_witness:
  "keys_ok cfg_zero (init cfg_zero) \<and> rng_ok env_low \<and> weights_ok cfg_zero
   \<and> select_endpoint cfg_zero env_low [] (init cfg_zero)
       = Inr (Some ep_z, (init cfg_zero)\<lparr>rng_draws := 1\<rparr>)
   \<and> ep_z \<in> set (endpoints cfg_zero)
   \<and> circuit_states (init cfg_zero) (name ep_z) \<noteq> Some Open
   \<and> weight ep_z = 0
   \<and> sum_list (map weight (candidates cfg_zero [] (init cfg_zero))) = 10
   \<and> random_uniform env_low 0 0 (real_of_int 10) = 0
   \<and> ep_z = hd (candidates cfg_zero [] (init cfg_zero))
   \<and> sum_list (map weight (candidates cfg_zero [''b''] (init cfg_zero))) = 0
   \<and> select_endpoint cfg_zero env_low [''b''] (init cfg_zero)
       = Inr (Some (candidates cfg_zero [''b''] (init cfg_zero)
                      ! random_choice env_low 0 (length (candidates cfg_zero [''b''] (init cfg_zero)))),
              (init cfg_zero)\<lparr>rng_draws := 1\<rparr>)
   \<and> keys_ok cfg_one st_tripped \<and> rng_ok env_down \<and> weights_ok cfg_one
   \<and> select_endpoint cfg_one env_down [] st_tripped = Inr (None, st_tripped)
   \<and> circuit_states st_tripped (name ep_a) = Some Open"
proof -
  note T1 = selector_returns_candidate
    [where cfg = cfg_zero and st = "init cfg_zero" and ev = env_low and ex = "[]"]
  note T2 = selector_returns_candidate
    [where cfg = cfg_zero and st = "init cfg_zero" and ev = env_low and ex = "[''b'']"]
  note T3 = selector_returns_candidate
    [where cfg = cfg_one and st = st_tripped and ev = env_down and ex = "[]"]
  have k3: "keys_ok cfg_one st_tripped" using st_tripped_reachable by (rule reachable_keys_ok)
  have w3: "weights_ok cfg_one" by (simp add: weights_ok_def cfg_one_def ep_a_def)
  have s0: "sum_list (map weight (candidates cfg_zero [] (init cfg_zero))) = 10"
    "sum_list (map weight (candidates cfg_zero [''b''] (init cfg_zero))) = 0"
    by (simp_all add: cfg_zero_facts)
  from T1 cfg_zero_facts(1,2) rng_ok_env_low select_zero_weighted
  have A: "ep_z \<in> set (endpoints cfg_zero)
      \<and> circuit_states (init cfg_zero) (name ep_z) \<noteq> Some Open"
    by auto
  from T1 cfg_zero_facts(1,2) rng_ok_env_low select_zero_weighted cfg_zero_facts(5) s0(1)
  have B: "random_uniform env_low (rng_draws (init cfg_zero)) 0
                 (real_of_int (sum_list (map weight (candidates cfg_zero [] (init cfg_zero))))) = 0
      \<and> ep_z = hd (candidates cfg_zero [] (init cfg_zero))"
    by auto
  from T2 cfg_zero_facts(1,2,4) rng_ok_env_low select_zero_uniform s0(2)
  have C: "Some ep_z = Some (candidates cfg_zero [''b''] (init cfg_zero)
                      ! random_choice env_low (rng_draws (init cfg_zero))
                          (length (candidates cfg_zero [''b''] (init cfg_zero))))"
    by auto
  from T3 k3 w3 rng_ok_env_down select_tripped_none
  have D: "\<not> (\<exists>e \<in> set (endpoints cfg_one). circuit_states st_tripped (name e) \<noteq> Some Open
                                            \<and> name e \<notin> set [])"
    by auto
  then have E: "circuit_states st_tripped (name ep_a) = Some Open"
    by (simp add: cfg_one_def)
  from A B C E k3 w3 s0 cfg_zero_facts rng_ok_env_low rng_ok_env_down
    select_zero_weighted select_zero_uniform select_tripped_none
  show ?thesis by simp
qed

text \<open>
  Claim C3 as stated fails: of two candidates with the weights 0 and 10, the one of
  weight 0 is returned on the weighted path, when the draw is 0.
\<close>

theorem weight_zero_selected_counterexample:
  "rng_ok env_low
   \<and> candidates cfg_zero [] (init cfg_zero) = [ep_z, ep_b]
   \<and> weight ep_z = 0 \<and> weight ep_b = 10
   \<and> random_uniform env_low 0 0 (real_of_int (0 + 10)) = 0
   \<and> select_endpoint cfg_zero env_low [] (init cfg_zero)
       = Inr (Some ep_z, (init cfg_zero)\<lparr>rng_draws := 1\<rparr>)"
proof -
  have "random_uniform env_low 0 0 (real_of_int (0 + 10)) = 0"
    by (simp add: env_low_def scripted_def)
  with rng_ok_env_low cfg_zero_facts(3,5,6) select_zero_weighted show ?thesis
    by blast
qed

section \<open>The health sweep\<close>

lemma check_endpoint_health_outcome:
  "fst (check_endpoint_health ev e st) = probe_outcome ev (probes st) e"
  by (simp add: check_endpoint_health_def probe_outcome_def Let_def)

text \<open>
  One endpoint of the sweep does to its circuit what the specification says, with the
  time of the next clock reading and the outcome of the next probe.
\<close>

lemma health_check_endpoint_spec:
  assumes "circuit_states st (name e) = Some s"
  shows "\<exists>st'. health_check_endpoint cfg ev e st = Inr st'
     \<and> circuit_of st' (name e)
         = map_prod Some id
             (sweep_spec (recovery_timeout (circuit_breaker cfg))
                (time_at ev (clock_reads st)) (probe_outcome ev (probes st) e)
                (time_at ev (if s = Open then Suc (clock_reads st) else clock_reads st))
                (s, failure_counts st (name e), last_failure_time st (name e)))"
proof (cases s)
  case Closed
  with assms show ?thesis
    by (simp add: health_check_endpoint_def sweep_spec_def circuit_of_def)
next
  case HalfOpen
  obtain ok st2 where c: "check_endpoint_health ev e st = (ok, st2)"
    by (cases "check_endpoint_health ev e st")
  with check_endpoint_health_outcome[of ev e st] have ok: "ok = probe_outcome ev (probes st) e"
    by simp
  from check_endpoint_health_fields[OF c] assms HalfOpen c ok show ?thesis
    by (cases ok)
      (simp_all add: health_check_endpoint_def sweep_spec_def circuit_of_def reset_circuit_def
        trip_circuit_fields)
next
  case Open
  let ?st0 = "st\<lparr>clock_reads := Suc (clock_reads st)\<rparr>"
  show ?thesis
  proof (cases "time_at ev (clock_reads st) - last_failure_time st (name e)
                  > real_of_int (recovery_timeout (circuit_breaker cfg))")
    case False
    with assms Open show ?thesis
      by (simp add: health_check_endpoint_def sweep_spec_def circuit_of_def time_time_def)
  next
    case True
    let ?st1 = "?st0\<lparr>circuit_states := (circuit_states ?st0)(name e \<mapsto> HalfOpen)\<rparr>"
    obtain ok st2 where c: "check_endpoint_health ev e ?st1 = (ok, st2)"
      by (cases "check_endpoint_health ev e ?st1")
    with check_endpoint_health_outcome[of ev e ?st1] have ok: "ok = probe_outcome ev (probes st) e"
      by simp
    from check_endpoint_health_fields[OF c] assms Open True c ok show ?thesis
      by (cases ok)
        (simp_all add: health_check_endpoint_def sweep_spec_def circuit_of_def reset_circuit_def
          trip_circuit_fields time_time_def)
  qed
qed

lemma sweep_spec_settled: "fst (sweep_spec rt now healthy now2 c) \<noteq> HalfOpen"
  by (cases c) (auto simp: sweep_spec_def Let_def)

lemma health_check_loop_spec:
  assumes "\<forall>e \<in> set es. circuit_states st (name e) \<noteq> None" and "distinct (map name es)"
  shows "\<exists>st'. health_check_loop cfg ev es st = Inr st'
     \<and> (\<forall>e \<in> set es. \<exists>k p s. clock_reads st \<le> k \<and> probes st \<le> p
           \<and> circuit_states st (name e) = Some s
           \<and> circuit_of st' (name e)
               = map_prod Some id
                   (sweep_spec (recovery_timeout (circuit_breaker cfg))
                      (time_at ev k) (probe_outcome ev p e)
                      (time_at ev (if s = Open then Suc k else k))
                      (s, failure_counts st (name e), last_failure_time st (name e))))"
  using assms
proof (induction es arbitrary: st)
  case Nil
  then show ?case by simp
next
  case (Cons x xs)
  from Cons.prems(1) obtain sx where sx: "circuit_states st (name x) = Some sx" by auto
  from health_check_endpoint_spec[OF sx, of cfg ev] obtain st1 where
    step: "health_check_endpoint cfg ev x st = Inr st1"
    and cx: "circuit_of st1 (name x)
         = map_prod Some id
             (sweep_spec (recovery_timeout (circuit_breaker cfg))
                (time_at ev (clock_reads st)) (probe_outcome ev (probes st) x)
                (time_at ev (if sx = Open then Suc (clock_reads st) else clock_reads st))
                (sx, failure_counts st (name x), last_failure_time st (name x)))"
    by blast
  note fr = health_check_endpoint_frame[OF step]
  have keys1: "\<forall>e \<in> set xs. circuit_states st1 (name e) \<noteq> None"
    using Cons.prems(1) fr(7) by simp
  from Cons.prems(2) have dist: "distinct (map name xs)" and nx: "name x \<notin> name ` set xs"
    by simp_all
  from Cons.IH[OF keys1 dist] obtain st' where
    rest: "health_check_loop cfg ev xs st1 = Inr st'"
    and ih: "\<forall>e \<in> set xs. \<exists>k p s. clock_reads st1 \<le> k \<and> probes st1 \<le> p
           \<and> circuit_states st1 (name e) = Some s
           \<and> circuit_of st' (name e)
               = map_prod Some id
                   (sweep_spec (recovery_timeout (circuit_breaker cfg))
                      (time_at ev k) (probe_outcome ev p e)
                      (time_at ev (if s = Open then Suc k else k))
                      (s, failure_counts st1 (name e), last_failure_time st1 (name e)))"
    by blast
  from step rest have run: "health_check_loop cfg ev (x # xs) st = Inr st'" by simp
  have "\<exists>k p s. clock_reads st \<le> k \<and> probes st \<le> p
           \<and> circuit_states st (name e) = Some s
           \<and> circuit_of st' (name e)
               = map_prod Some id
                   (sweep_spec (recovery_timeout (circuit_breaker cfg))
                      (time_at ev k) (probe_outcome ev p e)
                      (time_at ev (if s = Open then Suc k else k))
                      (s, failure_counts st (name e), last_failure_time st (name e)))"
    if mem: "e \<in> set (x # xs)" for e
  proof (cases "name e = name x")
    case True
    with nx have "name e \<notin> name ` set xs" by simp
    with health_check_loop_frame[OF rest, of "name e"]
    have "circuit_of st' (name e) = circuit_of st1 (name e)" by simp
    with cx True
    have "circuit_of st' (name e)
         = map_prod Some id
             (sweep_spec (recovery_timeout (circuit_breaker cfg))
                (time_at ev (clock_reads st)) (probe_outcome ev (probes st) x)
                (time_at ev (if sx = Open then Suc (clock_reads st) else clock_reads st))
                (sx, failure_counts st (name e), last_failure_time st (name e)))"
      by simp
    moreover have "e = x"
    proof (rule ccontr)
      assume "e \<noteq> x"
      with mem have "e \<in> set xs" by simp
      then have "name e \<in> name ` set xs" by (rule imageI)
      with True nx show False by simp
    qed
    ultimately show ?thesis using sx by (intro exI[of _ "clock_reads st"] exI[of _ "probes st"] exI[of _ sx]) simp
  next
    case False
    with mem have in_xs: "e \<in> set xs" by auto
    with ih obtain k p s where
      k: "clock_reads st1 \<le> k" "probes st1 \<le> p" "circuit_states st1 (name e) = Some s"
      and c: "circuit_of st' (name e)
               = map_prod Some id
                   (sweep_spec (recovery_timeout (circuit_breaker cfg))
                      (time_at ev k) (probe_outcome ev p e)
                      (time_at ev (if s = Open then Suc k else k))
                      (s, failure_counts st1 (name e), last_failure_time st1 (name e)))"
      by blast
    from fr(8)[of "name e"] False have same: "circuit_of st1 (name e) = circuit_of st (name e)"
      by simp
    then have "circuit_states st1 (name e) = circuit_states st (name e)"
      "failure_counts st1 (name e) = failure_counts st (name e)"
      "last_failure_time st1 (name e) = last_failure_time st (name e)"
      by (simp_all add: circuit_of_def)
    with k c fr(5,6) show ?thesis
      by (intro exI[of _ k] exI[of _ p] exI[of _ s]) simp
  qed
  with run show ?case by blast
qed

lemma snapshot_total:
  "\<forall>e \<in> set es. circuit_states st (name e) \<noteq> None \<Longrightarrow>
     \<exists>snap. snapshot st es = Inr snap \<and> map fst snap = map name es
       \<and> (\<forall>e \<in> set es. \<exists>s. circuit_states st (name e) = Some s
             \<and> map_of snap (name e) = Some (s, failure_counts st (name e)))"
proof (induction es)
  case Nil
  then show ?case by simp
next
  case (Cons x xs)
  from Cons.prems obtain sx where sx: "circuit_states st (name x) = Some sx" by auto
  from Cons obtain snap where s: "snapshot st xs = Inr snap" "map fst snap = map name xs"
    and all: "\<forall>e \<in> set xs. \<exists>s. circuit_states st (name e) = Some s
             \<and> map_of snap (name e) = Some (s, failure_counts st (name e))"
    by auto
  from sx s have "snapshot st (x # xs) = Inr ((name x, sx, failure_counts st (name x)) # snap)"
    by simp
  with s(2) sx all show ?case by auto
qed

lemma sweep_spec_cases:
  "sweep_spec rt now healthy now2 (Closed, f, l) = (Closed, f, l)"
  "sweep_spec rt now healthy now2 (HalfOpen, f, l) = (if healthy then (Closed, 0, l) else (Open, f, now2))"
  "sweep_spec rt now healthy now2 (Open, f, l)
     = (if now - l > real_of_int rt then (if healthy then (Closed, 0, l) else (Open, f, now2))
        else (Open, f, l))"
  by (simp_all add: sweep_spec_def)

lemma health_check_spec:
  assumes keys: "keys_ok cfg st" and dist: "distinct (map name (endpoints cfg))"
  shows "\<exists>snap st'. health_check cfg ev st = Inr (snap, st')
         \<and> map fst snap = map name (endpoints cfg)
         \<and> (\<forall>e \<in> set (endpoints cfg). \<exists>k p s sa.
               clock_reads st \<le> k \<and> probes st \<le> p
               \<and> circuit_states st (name e) = Some s
               \<and> circuit_of st' (name e)
                   = map_prod Some id
                       (sweep_spec (recovery_timeout (circuit_breaker cfg))
                          (time_at ev k) (probe_outcome ev p e)
                          (time_at ev (if s = Open then Suc k else k))
                          (s, failure_counts st (name e), last_failure_time st (name e)))
               \<and> circuit_states st' (name e) = Some sa \<and> sa \<noteq> HalfOpen
               \<and> map_of snap (name e) = Some (sa, failure_counts st' (name e)))"
proof -
  from keys have k0: "\<forall>e \<in> set (endpoints cfg). circuit_states st (name e) \<noteq> None"
    by (simp add: keys_ok_def)
  from health_check_loop_spec[OF k0 dist, of cfg ev] obtain st' where
    run: "health_check_loop cfg ev (endpoints cfg) st = Inr st'"
    and sp: "\<forall>e \<in> set (endpoints cfg). \<exists>k p s. clock_reads st \<le> k \<and> probes st \<le> p
           \<and> circuit_states st (name e) = Some s
           \<and> circuit_of st' (name e)
               = map_prod Some id
                   (sweep_spec (recovery_timeout (circuit_breaker cfg))
                      (time_at ev k) (probe_outcome ev p e)
                      (time_at ev (if s = Open then Suc k else k))
                      (s, failure_counts st (name e), last_failure_time st (name e)))"
    by blast
  from health_check_loop_frame[OF run] k0
  have k1: "\<forall>e \<in> set (endpoints cfg). circuit_states st' (name e) \<noteq> None" by simp
  from snapshot_total[OF k1] obtain snap where
    sn: "snapshot st' (endpoints cfg) = Inr snap" "map fst snap = map name (endpoints cfg)"
    and sm: "\<forall>e \<in> set (endpoints cfg). \<exists>s. circuit_states st' (name e) = Some s
             \<and> map_of snap (name e) = Some (s, failure_counts st' (name e))"
    by blast
  from run sn(1) have hc: "health_check cfg ev st = Inr (snap, st')"
    by (simp add: health_check_def)
  have "\<exists>k p s sa.
               clock_reads st \<le> k \<and> probes st \<le> p
               \<and> circuit_states st (name e) = Some s
               \<and> circuit_of st' (name e)
                   = map_prod Some id
                       (sweep_spec (recovery_timeout (circuit_breaker cfg))
                          (time_at ev k) (probe_outcome ev p e)
                          (time_at ev (if s = Open then Suc k else k))
                          (s, failure_counts st (name e), last_failure_time st (name e)))
               \<and> circuit_states st' (name e) = Some sa \<and> sa \<noteq> HalfOpen
               \<and> map_of snap (name e) = Some (sa, failure_counts st' (name e))"
    if mem: "e \<in> set (endpoints cfg)" for e
  proof -
    from sp mem obtain k p s where
      a: "clock_reads st \<le> k" "probes st \<le> p" "circuit_states st (name e) = Some s"
      and c: "circuit_of st' (name e)
               = map_prod Some id
                   (sweep_spec (recovery_timeout (circuit_breaker cfg))
                      (time_at ev k) (probe_outcome ev p e)
                      (time_at ev (if s = Open then Suc k else k))
                      (s, failure_counts st (name e), last_failure_time st (name e)))"
      by blast
    from sm mem obtain sa where
      b: "circuit_states st' (name e) = Some sa"
         "map_of snap (name e) = Some (sa, failure_counts st' (name e))"
      by blast
    from arg_cong[OF c, of fst] b(1)
    have "sa = fst (sweep_spec (recovery_timeout (circuit_breaker cfg))
                      (time_at ev k) (probe_outcome ev p e)
                      (time_at ev (if s = Open then Suc k else k))
                      (s, failure_counts st (name e), last_failure_time st (name e)))"
      by (simp add: circuit_of_def del: split_paired_All)
    then have "sa \<noteq> HalfOpen" by (simp add: sweep_spec_settled)
    with a c b show ?thesis by blast
  qed
  with hc sn(2) show ?thesis by blast
qed

text \<open>
  Claim C6. For one endpoint, the body of the sweep does to its circuit state, failure
  count and time of last failure what the specification says: open and past the recovery
  time-out becomes half-open; half-open is probed, and closes with the failures reset when
  the probe succeeds, or opens again with the time of the failure refreshed when it fails.
  With distinct endpoint names, \<^verbatim>\<open>health_check\<close> returns, every endpoint has made this
  step with some reading of the clock and some probe of the sweep, no circuit is left
  half-open, and the returned map gives for every endpoint name its state and its failure
  count after the sweep.
\<close>

theorem health_check_sweep:
  "(circuit_states st (name e) = Some s \<longrightarrow>
      (\<exists>st'. health_check_endpoint cfg ev e st = Inr st'
         \<and> circuit_of st' (name e)
             = map_prod Some id
                 (sweep_spec (recovery_timeout (circuit_breaker cfg))
                    (time_at ev (clock_reads st)) (probe_outcome ev (probes st) e)
                    (time_at ev (if s = Open then Suc (clock_reads st) else clock_reads st))
                    (s, failure_counts st (name e), last_failure_time st (name e)))))
   \<and> (keys_ok cfg st \<and> distinct (map name (endpoints cfg)) \<longrightarrow>
        (\<exists>snap st'. health_check cfg ev st = Inr (snap, st')
           \<and> map fst snap = map name (endpoints cfg)
           \<and> (\<forall>e \<in> set (endpoints cfg). \<exists>k p s sa.
                 clock_reads st \<le> k \<and> probes st \<le> p
                 \<and> circuit_states st (name e) = Some s
                 \<and> circuit_of st' (name e)
                     = map_prod Some id
                         (sweep_spec (recovery_timeout (circuit_breaker cfg))
                            (time_at ev k) (probe_outcome ev p e)
                            (time_at ev (if s = Open then Suc k else k))
                            (s, failure_counts st (name e), last_failure_time st (name e)))
                 \<and> circuit_states st' (name e) = Some sa \<and> sa \<noteq> HalfOpen
                 \<and> map_of snap (name e) = Some (sa, failure_counts st' (name e)))))
   \<and> sweep_spec rt now healthy now2 (Closed, f, l) = (Closed, f, l)
   \<and> sweep_spec rt now healthy now2 (HalfOpen, f, l)
       = (if healthy then (Closed, 0, l) else (Open, f, now2))
   \<and> sweep_spec rt now healthy now2 (Open, f, l)
       = (if now - l > real_of_int rt
          then (if healthy then (Closed, 0, l) else (Open, f, now2))
          else (Open, f, l))"
  using health_check_endpoint_spec[of st e s cfg ev] health_check_spec[of cfg st ev]
    sweep_spec_cases[of rt now healthy now2 f l]
  by (intro conjI impI) blast+

lemma st_tripped_circuit: "circuit_of st_tripped ''a'' = (Some Open, 2, 4)"
  "clock_reads st_tripped = 5" "probes st_tripped = 0"
  by (simp_all add: circuit_of_def st_tripped_def st_failed_once_def example_defs model_defs)

lemmas health_defs = health_check_def health_check_endpoint_def check_endpoint_health_def

lemma st_healed_run:
  "health_check cfg_one env_late_up st_tripped = Inr ([(''a'', Closed, 0)], st_healed)"
  by (simp add: st_healed_def st_tripped_def st_failed_once_def health_defs example_defs model_defs)

lemma st_healed_circuit: "circuit_of st_healed ''a'' = (Some Closed, 0, 4)"
  "trace st_healed = trace st_tripped @ [Probe ''a'']"
  by (simp_all add: circuit_of_def st_healed_def st_tripped_def st_failed_once_def health_defs
        example_defs model_defs)

lemma st_reopened_run:
  "health_check cfg_one env_late_down st_tripped = Inr ([(''a'', Open, 2)], st_reopened)"
  by (simp add: st_reopened_def st_tripped_def st_failed_once_def health_defs example_defs
        model_defs)

lemma st_reopened_circuit: "circuit_of st_reopened ''a'' = (Some Open, 2, 106)"
  by (simp add: circuit_of_def st_reopened_def st_tripped_def st_failed_once_def health_defs
        example_defs model_defs)

theorem health_check_sweep_witness:
  "keys_ok cfg_one st_tripped \<and> distinct (map name (endpoints cfg_one))
   \<and> circuit_states st_tripped (name ep_a) = Some Open
   \<and> circuit_of st_tripped ''a'' = (Some Open, 2, 4)
   \<and> health_check cfg_one env_late_up st_tripped = Inr ([(''a'', Closed, 0)], st_healed)
   \<and> circuit_of st_healed ''a'' = (Some Closed, 0, 4)
   \<and> trace st_healed = trace st_tripped @ [Probe ''a'']
   \<and> health_check cfg_one env_late_down st_tripped = Inr ([(''a'', Open, 2)], st_reopened)
   \<and> circuit_of st_reopened ''a'' = (Some Open, 2, 106)
   \<and> (\<exists>st'. health_check_endpoint cfg_one env_late_up ep_a st_tripped = Inr st'
         \<and> circuit_of st' (name ep_a) = (Some Closed, 0, 4))
   \<and> (\<exists>st'. health_check_endpoint cfg_one env_late_down ep_a st_tripped = Inr st'
         \<and> circuit_of st' (name ep_a) = (Some Open, 2, 106))
   \<and> (\<exists>sa. map_of [(''a'', Closed, 0::int)] (name ep_a) = Some (sa, 0) \<and> sa \<noteq> HalfOpen)"
proof -
  have keys: "keys_ok cfg_one st_tripped"
    using st_tripped_reachable by (rule reachable_keys_ok)
  have c: "distinct (map name (endpoints cfg_one))" "name ep_a = ''a''"
    "recovery_timeout (circuit_breaker cfg_one) = 10" "endpoints cfg_one = [ep_a]"
    by (simp_all add: cfg_one_def ep_a_def)
  have open_a: "circuit_states st_tripped (name ep_a) = Some Open"
    by (simp add: c st_tripped_fields)
  have env: "time_at env_late_up 5 = 105" "time_at env_late_up 6 = 106"
    "time_at env_late_down 5 = 105" "time_at env_late_down 6 = 106"
    "probe_outcome env_late_up 0 ep_a" "\<not> probe_outcome env_late_down 0 ep_a"
    by (simp_all add: probe_outcome_def example_defs)
  have fl: "failure_counts st_tripped ''a'' = 2" "last_failure_time st_tripped ''a'' = 4"
    using st_tripped_circuit(1) by (simp_all add: circuit_of_def)
  note T1 = health_check_sweep
    [where st = st_tripped and e = ep_a and s = Open and cfg = cfg_one and ev = env_late_up]
  note T2 = health_check_sweep
    [where st = st_tripped and e = ep_a and s = Open and cfg = cfg_one and ev = env_late_down]
  from T1[THEN conjunct1] open_a
  have A: "\<exists>st'. health_check_endpoint cfg_one env_late_up ep_a st_tripped = Inr st'
         \<and> circuit_of st' (name ep_a) = (Some Closed, 0, 4)"
    by (simp add: c env fl st_tripped_circuit sweep_spec_def)
  from T2[THEN conjunct1] open_a
  have B: "\<exists>st'. health_check_endpoint cfg_one env_late_down ep_a st_tripped = Inr st'
         \<and> circuit_of st' (name ep_a) = (Some Open, 2, 106)"
    by (simp add: c env fl st_tripped_circuit sweep_spec_def)
  from T1[THEN conjunct2, THEN conjunct1] keys c(1)
  have "\<exists>snap st'. health_check cfg_one env_late_up st_tripped = Inr (snap, st')
      \<and> (\<exists>sa. circuit_states st' (name ep_a) = Some sa \<and> sa \<noteq> HalfOpen
             \<and> map_of snap (name ep_a) = Some (sa, failure_counts st' (name ep_a)))"
    by (simp add: c(4)) blast
  with st_healed_run st_healed_circuit(1)
  have C: "\<exists>sa. map_of [(''a'', Closed, 0::int)] (name ep_a) = Some (sa, 0) \<and> sa \<noteq> HalfOpen"
    by (auto simp: circuit_of_def c(2))
  from A B C keys c open_a st_tripped_circuit st_healed_run st_healed_circuit st_reopened_run
    st_reopened_circuit
  show ?thesis by simp
qed

end
